theory Spec2Isabelle
  imports Complex_Main
begin

section \<open>Configuration and validation\<close>

text \<open>
  The load-test harness of \<^verbatim>\<open>go/internal/stats\<close> (package \<^verbatim>\<open>stats\<close>) and the
  standalone program that carries the same driver inline in its \<^verbatim>\<open>main\<close>.

  \<^verbatim>\<open>time.Duration\<close> and Go's \<^verbatim>\<open>int\<close> are 64-bit signed integers. They are modelled as
  \<open>int\<close>: the counters of the harness only count operations that were really run and the
  clock is the monotonic reading of \<^verbatim>\<open>time.Now()\<close> (nanoseconds since process start), so
  no computation below comes near \<open>2 ^ 63\<close> unless \<^verbatim>\<open>RunFor\<close> itself is chosen within
  the process uptime of the largest \<^verbatim>\<open>int64\<close>.
\<close>

record Config =
  RunFor :: int
  ReqCount :: int

text \<open>The configuration of the standalone program: the same two fields and six strings.\<close>

record config =
  RunFor' :: int
  Table :: string
  DB :: string
  Conn :: string
  User :: string
  Pass :: string
  Socket :: string
  ReqCount' :: int

datatype error = ValidationErrors "string list"

text \<open>
  Modelled from the spec: the package \<^verbatim>\<open>gopkg.in/go-playground/validator.v9\<close>, which both
  programs call as \<^verbatim>\<open>validator.New().Struct(c)\<close> with the struct tag
  \<^verbatim>\<open>validate:"required"\<close> on every field, is a dependency and not among the sources. Its
  rule \<^verbatim>\<open>required\<close> rejects only the zero value of a field's type: \<open>0\<close> for an integer
  or a duration, the empty string for a string. The error lists the fields that failed, in
  declaration order.
\<close>

definition required :: "int \<Rightarrow> bool" where
  "required v \<longleftrightarrow> v \<noteq> 0"

definition required_str :: "string \<Rightarrow> bool" where
  "required_str v \<longleftrightarrow> v \<noteq> []"

definition struct_errors :: "(string \<times> bool) list \<Rightarrow> error option" where
  "struct_errors fs =
     (let failed = map fst (filter (\<lambda>f. \<not> snd f) fs)
      in if failed = [] then None else Some (ValidationErrors failed))"

definition Validate :: "Config \<Rightarrow> error option" where
  "Validate c =
     struct_errors
       [(''RunFor'', required (RunFor c)),
        (''ReqCount'', required (ReqCount c))]"

definition check :: "config \<Rightarrow> error option" where
  "check c =
     struct_errors
       [(''RunFor'', required (RunFor' c)),
        (''Table'', required_str (Table c)),
        (''DB'', required_str (DB c)),
        (''Conn'', required_str (Conn c)),
        (''User'', required_str (User c)),
        (''Pass'', required_str (Pass c)),
        (''Socket'', required_str (Socket c)),
        (''ReqCount'', required (ReqCount' c))]"

section \<open>The recorder\<close>

text \<open>
  \<^verbatim>\<open>Recorder\<close> (and \<^verbatim>\<open>stats\<close> of the standalone program, which has the same fields
  under the names \<^verbatim>\<open>mu, tries, ok, ds\<close>). A \<^verbatim>\<open>float64\<close> is either not-a-number or a
  number; \<^verbatim>\<open>float64(d)\<close> of a duration is exact below \<open>2 ^ 53\<close> nanoseconds (104 days),
  and rounding beyond that is not modelled. The mutex is the flag \<open>mu\<close>: \<^verbatim>\<open>Lock\<close> on a
  held mutex blocks, which a sequential run can only report as no result.
\<close>

datatype float64 = NaN | Fin real

definition float64_of :: "int \<Rightarrow> float64" where
  "float64_of d = Fin (real_of_int d)"

record Recorder =
  mu :: bool
  Tries :: int
  Ok :: int
  durations :: "float64 list"

definition zeroRecorder :: Recorder where
  "zeroRecorder = \<lparr>mu = False, Tries = 0, Ok = 0, durations = []\<rparr>"

definition Lock :: "Recorder \<Rightarrow> Recorder option" where
  "Lock r = (if mu r then None else Some (r\<lparr>mu := True\<rparr>))"

definition Unlock :: "Recorder \<Rightarrow> Recorder" where
  "Unlock r = r\<lparr>mu := False\<rparr>"

definition record' :: "bool \<Rightarrow> int \<Rightarrow> Recorder \<Rightarrow> Recorder option" where
  "record' ok d r =
     (case Lock r of
        None \<Rightarrow> None
      | Some r1 \<Rightarrow>
          let r2 = r1\<lparr>Tries := Tries r1 + 1\<rparr>;
              r3 = (if ok then r2\<lparr>Ok := Ok r2 + 1\<rparr> else r2);
              r4 = r3\<lparr>durations := durations r3 @ [float64_of d]\<rparr>
          in Some (Unlock r4))"


section \<open>The statistics package\<close>

text \<open>
  Modelled from the spec: the package \<^verbatim>\<open>github.com/montanaflynn/stats\<close>, whose functions
  \<^verbatim>\<open>Min\<close>, \<^verbatim>\<open>Max\<close>, \<^verbatim>\<open>Median\<close> and \<^verbatim>\<open>Percentile\<close> compute every line of the
  report, is a dependency and not among the sources. On zero samples each of its functions
  fails: it returns not-a-number and an empty-input error. Beyond that the model follows
  the package itself, statement for statement, and its percentile is not a linear
  interpolation: with \<open>index = percent / 100 * n\<close> over the sorted copy \<open>c\<close> of \<open>n\<close>
  samples it is \<open>c[index - 1]\<close> when the index is a whole number, the mean of
  \<open>c[i - 1]\<close> and \<open>c[i]\<close> for \<open>i\<close> the whole part of an index above one, and a
  bounds error with not-a-number otherwise; a single sample is its own percentile.

  The arithmetic is that of the reals: the rounding of \<^verbatim>\<open>float64\<close> is not modelled. A
  comparison with not-a-number is false and an operation on it gives it back;
  \<^verbatim>\<open>sort.Float64s\<close> puts it before the numbers.
\<close>

datatype pkg_error = EmptyInputErr | BoundsErr

fun less64 :: "float64 \<Rightarrow> float64 \<Rightarrow> bool" where
  "less64 (Fin a) (Fin b) = (a < b)"
| "less64 _ _ = False"

fun add64 :: "float64 \<Rightarrow> float64 \<Rightarrow> float64" where
  "add64 (Fin a) (Fin b) = Fin (a + b)"
| "add64 _ _ = NaN"

fun div64 :: "float64 \<Rightarrow> nat \<Rightarrow> float64" where
  "div64 (Fin a) n = Fin (a / real n)"
| "div64 NaN n = NaN"

definition sortedCopy :: "float64 list \<Rightarrow> float64 list" where
  "sortedCopy input = filter (\<lambda>x. x = NaN) input @ map Fin (sort [x. Fin x \<leftarrow> input])"

definition stats_Sum :: "float64 list \<Rightarrow> float64 \<times> pkg_error option" where
  "stats_Sum input =
     (if length input = 0 then (NaN, Some EmptyInputErr)
      else (foldl add64 (Fin 0) input, None))"

definition stats_Mean :: "float64 list \<Rightarrow> float64 \<times> pkg_error option" where
  "stats_Mean input =
     (if length input = 0 then (NaN, Some EmptyInputErr)
      else (let (sum, _) = stats_Sum input in (div64 sum (length input), None)))"

definition stats_Min :: "float64 list \<Rightarrow> float64 \<times> pkg_error option" where
  "stats_Min input =
     (case input of
        [] \<Rightarrow> (NaN, Some EmptyInputErr)
      | x # xs \<Rightarrow> (foldl (\<lambda>min y. if less64 y min then y else min) x xs, None))"

definition stats_Max :: "float64 list \<Rightarrow> float64 \<times> pkg_error option" where
  "stats_Max input =
     (case input of
        [] \<Rightarrow> (NaN, Some EmptyInputErr)
      | x # xs \<Rightarrow> (foldl (\<lambda>max y. if less64 max y then y else max) x xs, None))"

definition stats_Median :: "float64 list \<Rightarrow> float64 \<times> pkg_error option" where
  "stats_Median input =
     (let c = sortedCopy input; l = length c
      in if l = 0 then (NaN, Some EmptyInputErr)
         else if l mod 2 = 0
           then (let (median, _) = stats_Mean (take 2 (drop (l div 2 - 1) c)) in (median, None))
         else (c ! (l div 2), None))"

definition stats_Percentile :: "float64 list \<Rightarrow> real \<Rightarrow> float64 \<times> pkg_error option" where
  "stats_Percentile input percent =
     (if length input = 0 then (NaN, Some EmptyInputErr)
      else if length input = 1 then (input ! 0, None)
      else if percent \<le> 0 \<or> percent > 100 then (NaN, Some BoundsErr)
      else
        (let c = sortedCopy input;
             index = percent / 100 * real (length c);
             i = nat \<lfloor>index\<rfloor>
         in if index = real_of_int \<lfloor>index\<rfloor> then (c ! (i - 1), None)
            else if index > 1
              then (let (percentile, _) = stats_Mean [c ! (i - 1), c ! i] in (percentile, None))
            else (NaN, Some BoundsErr)))"

section \<open>The aggregate report\<close>

text \<open>
  Every statistic is converted with \<^verbatim>\<open>time.Duration(...)\<close>, a conversion of a
  \<^verbatim>\<open>float64\<close> to an \<^verbatim>\<open>int64\<close>: a number is truncated towards zero, and for
  not-a-number or a number outside \<^verbatim>\<open>int64\<close> the conversion succeeds with a value that
  depends on the implementation, the parameter \<open>impl\<close>. On amd64 that value is the
  smallest \<^verbatim>\<open>int64\<close>, which \<^verbatim>\<open>%v\<close> prints as \<^verbatim>\<open>-2562047h47m16.854775808s\<close>. The
  report is the list of its lines, a label and the duration that is printed with
  \<^verbatim>\<open>%v\<close>; the printing itself is not modelled.
\<close>

definition Duration :: "(float64 \<Rightarrow> int) \<Rightarrow> float64 \<Rightarrow> int" where
  "Duration impl x =
     (case x of
        NaN \<Rightarrow> impl x
      | Fin v \<Rightarrow>
          (let t = (if 0 \<le> v then \<lfloor>v\<rfloor> else \<lceil>v\<rceil>)
           in if - (2 ^ 63) \<le> t \<and> t < 2 ^ 63 then t else impl x))"

definition amd64 :: "float64 \<Rightarrow> int" where
  "amd64 x = - (2 ^ 63)"

text \<open>\<^verbatim>\<open>Recorder.Aggregate\<close> of package \<^verbatim>\<open>stats\<close>: every error is assigned to \<^verbatim>\<open>_\<close>.\<close>

definition Aggregate :: "(float64 \<Rightarrow> int) \<Rightarrow> Recorder \<Rightarrow> (string \<times> int) list" where
  "Aggregate impl r =
     (let (min, _) = stats_Min (durations r);
          (max, _) = stats_Max (durations r);
          (medi, _) = stats_Median (durations r);
          (tile25, _) = stats_Percentile (durations r) 25;
          (tile50, _) = stats_Percentile (durations r) 50;
          (tile75, _) = stats_Percentile (durations r) 75;
          (tile95, _) = stats_Percentile (durations r) 95;
          (tile99, _) = stats_Percentile (durations r) 99
      in [(''min'', Duration impl min),
          (''max'', Duration impl max),
          (''median'', Duration impl medi),
          (''25th percentile'', Duration impl tile25),
          (''50th percentile'', Duration impl tile50),
          (''75th percentile'', Duration impl tile75),
          (''95th percentile'', Duration impl tile95),
          (''99th percentile'', Duration impl tile99)])"

text \<open>\<^verbatim>\<open>stats.aggregate\<close> of the standalone program.\<close>

definition aggregate :: "(float64 \<Rightarrow> int) \<Rightarrow> Recorder \<Rightarrow> (string \<times> int) list" where
  "aggregate impl s =
     (let (min, _) = stats_Min (durations s);
          (medi, _) = stats_Median (durations s);
          (tile75, _) = stats_Percentile (durations s) 75;
          (tile95, _) = stats_Percentile (durations s) 95;
          (tile99, _) = stats_Percentile (durations s) 99
      in [(''min'', Duration impl min),
          (''median'', Duration impl medi),
          (''75th percentile'', Duration impl tile75),
          (''95th percentile'', Duration impl tile95),
          (''99th percentile'', Duration impl tile99)])"


section \<open>The driver and its operations\<close>

text \<open>
  Two programs run the same dispatch loop: \<^verbatim>\<open>Stats.Start\<close> of package \<^verbatim>\<open>stats\<close>, called
  by \<^verbatim>\<open>go/cloudsql/performance-test/main.go\<close> with its \<^verbatim>\<open>readFunc\<close> and \<^verbatim>\<open>writeFunc\<close>
  closures, and the \<^verbatim>\<open>main\<close> of the standalone program, which has the loop and the
  operations inline.
\<close>

datatype program = Library Config | Standalone config

fun runFor :: "program \<Rightarrow> int" where
  "runFor (Library c) = RunFor c"
| "runFor (Standalone c) = RunFor' c"

fun reqCount :: "program \<Rightarrow> int" where
  "reqCount (Library c) = ReqCount c"
| "reqCount (Standalone c) = ReqCount' c"

fun validate :: "program \<Rightarrow> error option" where
  "validate (Library c) = Validate c"
| "validate (Standalone c) = check c"

text \<open>
  The run is a transition system over the driver and the goroutines it starts; one
  transition is one statement of one of them that touches shared state, blocks, or calls
  the backend. A goroutine is a worker: its program counter and its local variables.
\<close>

datatype kind = ReadOp | WriteOp

datatype call = Find int | Insert int | Update int

datatype decision = DecideInsert | DecideUpdate

datatype pc =
    Spawned
  | AtRead
  | AtLock
  | AtCheck
  | AtMark
  | AtUnlockI
  | AtInsert
  | AtUnlockU
  | AtUpdate
  | AtUpdateLocked
  | AtUnlockL
  | AtRecord
  | AtRelease
  | AtDone
  | Exited

record worker =
  w_pc :: pc
  w_id :: int
  w_opStart :: int
  w_ok :: bool
  w_rec :: "kind option"

definition new_worker :: worker where
  "new_worker = \<lparr>w_pc = Spawned, w_id = 0, w_opStart = 0, w_ok = True, w_rec = None\<rparr>"

datatype dpc =
    DStart
  | DLoop
  | DSend
  | DGo
  | DWait
  | DReturned Recorder Recorder
  | DFailed error

text \<open>
  The shared state. \<open>sem\<close> is the number of elements in the channel \<^verbatim>\<open>sem\<close>, whose
  capacity is \<^verbatim>\<open>ReqCount\<close>; \<open>wg\<close> is the counter of the wait group; \<open>mapLock\<close> is the
  mutex of the map \<^verbatim>\<open>inserted\<close>, with the worker that holds it (Go's mutex does not know
  its holder; the model keeps it to state who is inside). \<open>readRec\<close> and \<open>writeRec\<close>
  are the recorders \<^verbatim>\<open>read\<close> and \<^verbatim>\<open>write\<close>. A missing key of
  \<^verbatim>\<open>map[int]bool\<close> reads as false, so the map is a predicate. \<open>calls\<close> is the history of
  backend calls in the order they were issued, each with the worker that issued it, and
  \<open>decisions\<close> the history of the outcomes of the test \<^verbatim>\<open>inserted[id]\<close>. A panic in
  any goroutine ends the process: \<open>panicked\<close>.
\<close>

record state =
  now :: int
  dpc :: dpc
  stopTime :: int
  sem :: nat
  wg :: int
  procs :: "worker list"
  mapLock :: "nat option"
  inserted :: "int \<Rightarrow> bool"
  readRec :: Recorder
  writeRec :: Recorder
  allStats :: int
  calls :: "(nat \<times> call) list"
  decisions :: "(int \<times> decision) list"
  panicked :: bool

definition init :: "int \<Rightarrow> state" where
  "init t0 =
     \<lparr>now = t0, dpc = DStart, stopTime = 0, sem = 0, wg = 0, procs = [],
      mapLock = None, inserted = (\<lambda>_. False), readRec = zeroRecorder, writeRec = zeroRecorder,
      allStats = 0, calls = [], decisions = [], panicked = False\<rparr>"

text \<open>
  The driver. \<open>DStart\<close>: validation, then \<^verbatim>\<open>make(chan struct{}, ReqCount)\<close>, which
  panics on a negative size, and \<^verbatim>\<open>stopTime = time.Now().Add(RunFor)\<close>. \<open>DLoop\<close>: the
  loop condition; when it is false \<^verbatim>\<open>Stats.Start\<close> returns its two named results, and the
  standalone \<^verbatim>\<open>main\<close> goes on to \<^verbatim>\<open>wg.Wait()\<close>. \<open>DSend\<close>: \<^verbatim>\<open>sem <- struct{}{}\<close>, which
  blocks while the channel is full. \<open>DGo\<close>: \<^verbatim>\<open>wg.Add(1)\<close> and the \<^verbatim>\<open>go\<close> statement.
  \<open>DWait\<close>: \<^verbatim>\<open>wg.Wait()\<close>, which blocks until the counter is zero; the standalone program
  then prints its report from the two recorders. A blocked statement has no transition.
  Opening the database and creating the scratch table, which the programs do before the
  loop, belong to the backend and are left out.
\<close>

definition driver :: "program \<Rightarrow> state \<Rightarrow> state option" where
  "driver p s =
     (case dpc s of
        DStart \<Rightarrow>
          (case validate p of
             Some e \<Rightarrow> Some (s\<lparr>dpc := DFailed e\<rparr>)
           | None \<Rightarrow>
               if reqCount p < 0 then Some (s\<lparr>panicked := True\<rparr>)
               else Some (s\<lparr>dpc := DLoop, stopTime := now s + runFor p\<rparr>))
      | DLoop \<Rightarrow>
          if now s < stopTime s \<or> runFor p = 0 then Some (s\<lparr>dpc := DSend\<rparr>)
          else (case p of
                  Library _ \<Rightarrow> Some (s\<lparr>dpc := DReturned (readRec s) (writeRec s)\<rparr>)
                | Standalone _ \<Rightarrow> Some (s\<lparr>dpc := DWait\<rparr>))
      | DSend \<Rightarrow>
          if int (sem s) < reqCount p then Some (s\<lparr>dpc := DGo, sem := sem s + 1\<rparr>)
          else None
      | DGo \<Rightarrow> Some (s\<lparr>dpc := DLoop, wg := wg s + 1, procs := procs s @ [new_worker]\<rparr>)
      | DWait \<Rightarrow>
          if wg s = 0 then Some (s\<lparr>dpc := DReturned (readRec s) (writeRec s)\<rparr>) else None
      | DReturned _ _ \<Rightarrow> None
      | DFailed _ \<Rightarrow> None)"

text \<open>
  The first statements of a goroutine: \<^verbatim>\<open>ok = true\<close>, \<^verbatim>\<open>opStart = time.Now()\<close>,
  \<^verbatim>\<open>id := rand.Intn(100)\<close> and \<^verbatim>\<open>switch rand.Intn(10)\<close>, whose cases 0 to 4 are the
  write. The two random numbers are inputs of the transition.
\<close>

definition begin_op :: "nat \<Rightarrow> int \<Rightarrow> int \<Rightarrow> state \<Rightarrow> state option" where
  "begin_op i n k s =
     (if i < length (procs s) \<and> w_pc (procs s ! i) = Spawned \<and>
         0 \<le> n \<and> n < 100 \<and> 0 \<le> k \<and> k < 10
      then Some (s\<lparr>procs := (procs s)[i :=
             \<lparr>w_pc = (if k < 5 then AtLock else AtRead), w_id = n, w_opStart = now s,
              w_ok = True, w_rec = Some (if k < 5 then WriteOp else ReadOp)\<rparr>]\<rparr>)
      else None)"

text \<open>
  A call of the backend: \<^verbatim>\<open>find\<close>, \<^verbatim>\<open>insert\<close> or \<^verbatim>\<open>update\<close>. Whether it returns an
  error is an input of the transition; \<^verbatim>\<open>ok = false\<close> follows an error. The standalone
  program calls \<^verbatim>\<open>update\<close> before \<^verbatim>\<open>mapLock.Unlock()\<close> (\<open>AtUpdateLocked\<close>), the closure
  \<^verbatim>\<open>writeFunc\<close> after it (\<open>AtUpdate\<close>).
  The call is one transition: whatever happens while the backend
  works happens, in a schedule, before that transition, and the worker stays where it is
  until then.
\<close>

definition call_op :: "nat \<Rightarrow> bool \<Rightarrow> state \<Rightarrow> state option" where
  "call_op i failed s =
     (if i < length (procs s) then
        (let w = procs s ! i in
         case w_pc w of
           AtRead \<Rightarrow>
             Some (s\<lparr>calls := calls s @ [(i, Find (w_id w))],
                     procs := (procs s)[i := w\<lparr>w_pc := AtRecord, w_ok := \<not> failed\<rparr>]\<rparr>)
         | AtInsert \<Rightarrow>
             Some (s\<lparr>calls := calls s @ [(i, Insert (w_id w))],
                     procs := (procs s)[i := w\<lparr>w_pc := AtRecord, w_ok := \<not> failed\<rparr>]\<rparr>)
         | AtUpdate \<Rightarrow>
             Some (s\<lparr>calls := calls s @ [(i, Update (w_id w))],
                     procs := (procs s)[i := w\<lparr>w_pc := AtRecord, w_ok := \<not> failed\<rparr>]\<rparr>)
         | AtUpdateLocked \<Rightarrow>
             Some (s\<lparr>calls := calls s @ [(i, Update (w_id w))],
                     procs := (procs s)[i := w\<lparr>w_pc := AtUnlockL, w_ok := \<not> failed\<rparr>]\<rparr>)
         | _ \<Rightarrow> None)
      else None)"

text \<open>
  The other statements of a goroutine. \<open>AtLock\<close>: \<^verbatim>\<open>mapLock.Lock()\<close>, blocked while the
  mutex is held. \<open>AtCheck\<close>: \<^verbatim>\<open>if inserted[id]\<close>. \<open>AtMark\<close>: \<^verbatim>\<open>inserted[id] = true\<close>.
  \<open>AtUnlockI\<close>, \<open>AtUnlockU\<close>, \<open>AtUnlockL\<close>: the three \<^verbatim>\<open>mapLock.Unlock()\<close>, before
  \<^verbatim>\<open>insert\<close>, before \<^verbatim>\<open>update\<close> (library) and after \<^verbatim>\<open>update\<close> (standalone). Then the
  deferred calls in reverse order: \<open>AtRecord\<close> is \<^verbatim>\<open>rec.record(ok, time.Since(opStart))\<close>
  with the increment of \<^verbatim>\<open>allStats\<close>, which runs under the recorder's mutex and is one
  transition; \<open>AtRelease\<close> is \<^verbatim>\<open><-sem\<close>; \<open>AtDone\<close> is \<^verbatim>\<open>wg.Done()\<close>. A nil \<^verbatim>\<open>rec\<close> and
  a negative wait-group counter panic.
\<close>

definition step_op :: "program \<Rightarrow> nat \<Rightarrow> state \<Rightarrow> state option" where
  "step_op p i s =
     (if i < length (procs s) then
        (let w = procs s ! i in
         case w_pc w of
           AtLock \<Rightarrow>
             if mapLock s = None
             then Some (s\<lparr>mapLock := Some i, procs := (procs s)[i := w\<lparr>w_pc := AtCheck\<rparr>]\<rparr>)
             else None
         | AtCheck \<Rightarrow>
             if inserted s (w_id w)
             then Some (s\<lparr>decisions := decisions s @ [(w_id w, DecideUpdate)],
                          procs := (procs s)[i := w\<lparr>w_pc :=
                            (case p of Library _ \<Rightarrow> AtUnlockU | Standalone _ \<Rightarrow> AtUpdateLocked)\<rparr>]\<rparr>)
             else Some (s\<lparr>decisions := decisions s @ [(w_id w, DecideInsert)],
                          procs := (procs s)[i := w\<lparr>w_pc := AtMark\<rparr>]\<rparr>)
         | AtMark \<Rightarrow>
             Some (s\<lparr>inserted := (inserted s)(w_id w := True),
                     procs := (procs s)[i := w\<lparr>w_pc := AtUnlockI\<rparr>]\<rparr>)
         | AtUnlockI \<Rightarrow>
             Some (s\<lparr>mapLock := None, procs := (procs s)[i := w\<lparr>w_pc := AtInsert\<rparr>]\<rparr>)
         | AtUnlockU \<Rightarrow>
             Some (s\<lparr>mapLock := None, procs := (procs s)[i := w\<lparr>w_pc := AtUpdate\<rparr>]\<rparr>)
         | AtUnlockL \<Rightarrow>
             Some (s\<lparr>mapLock := None, procs := (procs s)[i := w\<lparr>w_pc := AtRecord\<rparr>]\<rparr>)
         | AtRecord \<Rightarrow>
             (case w_rec w of
                None \<Rightarrow> Some (s\<lparr>panicked := True\<rparr>)
              | Some ReadOp \<Rightarrow>
                  (case record' (w_ok w) (now s - w_opStart w) (readRec s) of
                     None \<Rightarrow> None
                   | Some r \<Rightarrow>
                       Some (s\<lparr>readRec := r, allStats := allStats s + 1,
                               procs := (procs s)[i := w\<lparr>w_pc := AtRelease\<rparr>]\<rparr>))
              | Some WriteOp \<Rightarrow>
                  (case record' (w_ok w) (now s - w_opStart w) (writeRec s) of
                     None \<Rightarrow> None
                   | Some r \<Rightarrow>
                       Some (s\<lparr>writeRec := r, allStats := allStats s + 1,
                               procs := (procs s)[i := w\<lparr>w_pc := AtRelease\<rparr>]\<rparr>)))
         | AtRelease \<Rightarrow>
             if sem s = 0 then None
             else Some (s\<lparr>sem := sem s - 1, procs := (procs s)[i := w\<lparr>w_pc := AtDone\<rparr>]\<rparr>)
         | AtDone \<Rightarrow>
             if wg s \<le> 0 then Some (s\<lparr>panicked := True\<rparr>)
             else Some (s\<lparr>wg := wg s - 1, procs := (procs s)[i := w\<lparr>w_pc := Exited\<rparr>]\<rparr>)
         | _ \<Rightarrow> None)
      else None)"

text \<open>
  An action is one transition of the schedule: the clock advances, the driver runs its
  next statement, or a worker runs its next statement with the inputs it reads. Nothing
  runs after a panic.
\<close>

datatype action = Tick nat | Drv | Begin nat int int | Step nat | Call nat bool

fun act :: "program \<Rightarrow> action \<Rightarrow> state \<Rightarrow> state option" where
  "act p (Tick d) s = Some (s\<lparr>now := now s + int d\<rparr>)"
| "act p Drv s = driver p s"
| "act p (Begin i n k) s = begin_op i n k s"
| "act p (Step i) s = step_op p i s"
| "act p (Call i failed) s = call_op i failed s"

definition step :: "program \<Rightarrow> action \<Rightarrow> state \<Rightarrow> state option" where
  "step p a s = (if panicked s then None else act p a s)"

fun exec :: "program \<Rightarrow> action list \<Rightarrow> state \<Rightarrow> state option" where
  "exec p [] s = Some s"
| "exec p (a # as) s = (case step p a s of None \<Rightarrow> None | Some s' \<Rightarrow> exec p as s')"

text \<open>
  Observations of a state that the properties below are stated with. An operation is in
  flight from the \<^verbatim>\<open>go\<close> statement until it has given back its slot; \<open>running\<close> counts
  them. \<open>inserts_of n\<close> and \<open>updates_of n\<close> count the calls of \<^verbatim>\<open>insert\<close> and
  \<^verbatim>\<open>update\<close> issued for the key \<open>n\<close>, \<open>decisions_of n\<close> are the outcomes of the tests
  of \<^verbatim>\<open>inserted[n]\<close> in the order they were made, and \<open>decided d n\<close> counts those that
  were \<open>d\<close>. \<open>inserting n\<close> counts the workers that have decided to insert \<open>n\<close> and
  have not yet called \<^verbatim>\<open>insert\<close>, \<open>updating n\<close> those that have decided to update
  \<open>n\<close> and have not yet called \<^verbatim>\<open>update\<close>. \<open>in_cs\<close> holds of the program counters between \<^verbatim>\<open>mapLock.Lock()\<close> and
  \<^verbatim>\<open>mapLock.Unlock()\<close>, \<open>at_call\<close> of those before a call of the backend.
\<close>

definition in_flight :: "worker \<Rightarrow> bool" where
  "in_flight w \<longleftrightarrow> w_pc w \<noteq> AtDone \<and> w_pc w \<noteq> Exited"

definition running :: "state \<Rightarrow> nat" where
  "running s = length (filter in_flight (procs s))"

definition returned :: "state \<Rightarrow> bool" where
  "returned s \<longleftrightarrow> (case dpc s of DReturned _ _ \<Rightarrow> True | _ \<Rightarrow> False)"

definition inserts_of :: "int \<Rightarrow> state \<Rightarrow> nat" where
  "inserts_of n s = length (filter (\<lambda>c. snd c = Insert n) (calls s))"

definition updates_of :: "int \<Rightarrow> state \<Rightarrow> nat" where
  "updates_of n s = length (filter (\<lambda>c. snd c = Update n) (calls s))"

definition decisions_of :: "int \<Rightarrow> state \<Rightarrow> decision list" where
  "decisions_of n s = map snd (filter (\<lambda>d. fst d = n) (decisions s))"

definition decided :: "decision \<Rightarrow> int \<Rightarrow> state \<Rightarrow> nat" where
  "decided d n s = length (filter (\<lambda>x. x = d) (decisions_of n s))"

definition ins_pend :: "int \<Rightarrow> worker \<Rightarrow> bool" where
  "ins_pend n w \<longleftrightarrow> w_id w = n \<and> (w_pc w = AtMark \<or> w_pc w = AtUnlockI \<or> w_pc w = AtInsert)"

definition upd_pend :: "int \<Rightarrow> worker \<Rightarrow> bool" where
  "upd_pend n w \<longleftrightarrow>
     w_id w = n \<and> (w_pc w = AtUnlockU \<or> w_pc w = AtUpdate \<or> w_pc w = AtUpdateLocked)"

definition inserting :: "int \<Rightarrow> state \<Rightarrow> nat" where
  "inserting n s = length (filter (ins_pend n) (procs s))"

definition updating :: "int \<Rightarrow> state \<Rightarrow> nat" where
  "updating n s = length (filter (upd_pend n) (procs s))"

definition in_cs :: "pc \<Rightarrow> bool" where
  "in_cs c \<longleftrightarrow> c = AtCheck \<or> c = AtMark \<or> c = AtUnlockI \<or> c = AtUnlockU \<or>
     c = AtUpdateLocked \<or> c = AtUnlockL"

definition at_call :: "pc \<Rightarrow> bool" where
  "at_call c \<longleftrightarrow> c = AtRead \<or> c = AtInsert \<or> c = AtUpdate \<or> c = AtUpdateLocked"

section \<open>Invariants of the run\<close>

text \<open>
  The semaphore: the channel holds one element for every operation in flight, and one more
  while the driver stands between its send and its \<^verbatim>\<open>go\<close> statement; it never holds more
  than its capacity.
\<close>

definition sem_inv :: "program \<Rightarrow> state \<Rightarrow> bool" where
  "sem_inv p s \<longleftrightarrow>
     sem s = running s + (if dpc s = DGo then 1 else 0) \<and> int (sem s) \<le> max 0 (reqCount p)"

text \<open>
  The mutex of the map: a worker is between \<^verbatim>\<open>Lock\<close> and \<^verbatim>\<open>Unlock\<close> exactly when it
  is the holder. The wait group counts the goroutines that have not run \<^verbatim>\<open>wg.Done()\<close>.
\<close>

definition mutex_inv :: "state \<Rightarrow> bool" where
  "mutex_inv s \<longleftrightarrow>
     (\<forall>i < length (procs s). in_cs (w_pc (procs s ! i)) \<longleftrightarrow> mapLock s = Some i) \<and>
     (\<forall>i. mapLock s = Some i \<longrightarrow> i < length (procs s))"

definition wg_inv :: "state \<Rightarrow> bool" where
  "wg_inv s \<longleftrightarrow> wg s = int (length (filter (\<lambda>w. w_pc w \<noteq> Exited) (procs s)))"

text \<open>
  Writes of one key \<open>n\<close>. Every decision is carried out by exactly one backend call:
  the inserts issued and the workers on their way to \<^verbatim>\<open>insert\<close> add up to the decisions
  to insert, and likewise for \<^verbatim>\<open>update\<close>.
\<close>

definition account_inv :: "int \<Rightarrow> state \<Rightarrow> bool" where
  "account_inv n s \<longleftrightarrow>
     length (filter (ins_pend n) (procs s)) + inserts_of n s = decided DecideInsert n s \<and>
     length (filter (upd_pend n) (procs s)) + updates_of n s = decided DecideUpdate n s"

text \<open>
  The decisions for a key are empty until a worker has found the key unmarked; from then
  on they are one decision to insert followed by decisions to update.
\<close>

definition mark_pend :: "int \<Rightarrow> worker \<Rightarrow> bool" where
  "mark_pend n w \<longleftrightarrow> w_id w = n \<and> w_pc w = AtMark"

definition shape_inv :: "int \<Rightarrow> state \<Rightarrow> bool" where
  "shape_inv n s \<longleftrightarrow>
     (if inserted s n \<or> filter (mark_pend n) (procs s) \<noteq> []
      then \<exists>k. decisions_of n s = DecideInsert # replicate k DecideUpdate
      else decisions_of n s = [])"

text \<open>A key is marked before any write of it is issued or waits to be issued.\<close>

definition marked_pend :: "int \<Rightarrow> worker \<Rightarrow> bool" where
  "marked_pend n w \<longleftrightarrow>
     w_id w = n \<and> (w_pc w = AtUnlockI \<or> w_pc w = AtInsert \<or> w_pc w = AtUnlockU \<or>
       w_pc w = AtUpdate \<or> w_pc w = AtUpdateLocked)"

definition marked_inv :: "int \<Rightarrow> state \<Rightarrow> bool" where
  "marked_inv n s \<longleftrightarrow>
     (filter (marked_pend n) (procs s) \<noteq> [] \<or> 0 < inserts_of n s \<or> 0 < updates_of n s
        \<longrightarrow> inserted s n)"

text \<open>
  In the library no worker ever stands where the standalone program calls \<^verbatim>\<open>update\<close>
  with the mutex held.
\<close>

definition locked_update :: "worker \<Rightarrow> bool" where
  "locked_update w \<longleftrightarrow> w_pc w = AtUpdateLocked \<or> w_pc w = AtUnlockL"

definition lib_inv :: "state \<Rightarrow> bool" where
  "lib_inv s \<longleftrightarrow> filter locked_update (procs s) = []"

text \<open>
  The standalone program has passed \<^verbatim>\<open>wg.Wait()\<close> only when every goroutine has exited,
  and what it reports are the recorders as they stay.
\<close>

definition drain_inv :: "state \<Rightarrow> bool" where
  "drain_inv s \<longleftrightarrow>
     (returned s \<longrightarrow>
        filter (\<lambda>w. w_pc w \<noteq> Exited) (procs s) = [] \<and>
        dpc s = DReturned (readRec s) (writeRec s))"

text \<open>
  A negative \<^verbatim>\<open>RunFor\<close> with a positive \<^verbatim>\<open>ReqCount\<close>: the stop time lies before the
  clock, and nothing is ever started.
\<close>

definition neg_inv :: "state \<Rightarrow> bool" where
  "neg_inv s \<longleftrightarrow>
     procs s = [] \<and> calls s = [] \<and> \<not> panicked s \<and>
     readRec s = zeroRecorder \<and> writeRec s = zeroRecorder \<and>
     (dpc s = DStart \<or> dpc s = DLoop \<and> stopTime s < now s \<or>
      dpc s = DReturned zeroRecorder zeroRecorder)"

section \<open>Proofs\<close>

subsection \<open>Lists\<close>

lemma filter_update_len:
  "i < length xs \<Longrightarrow>
     length (filter P (xs[i := y])) + (if P (xs ! i) then 1 else 0) =
     length (filter P xs) + (if P y then 1 else 0)"
proof (induction xs arbitrary: i)
  case Nil
  then show ?case by simp
next
  case (Cons x xs)
  show ?case
  proof (cases i)
    case 0
    then show ?thesis by simp
  next
    case (Suc j)
    then have "j < length xs" using Cons.prems by simp
    from Cons.IH[OF this] show ?thesis using Suc by simp
  qed
qed

lemma filter_update_same:
  "i < length xs \<Longrightarrow> P y = P (xs ! i) \<Longrightarrow> length (filter P (xs[i := y])) = length (filter P xs)"
  using filter_update_len[of i xs P y] by (simp split: if_splits)

lemma filter_update_dec:
  "i < length xs \<Longrightarrow> P (xs ! i) \<Longrightarrow> \<not> P y \<Longrightarrow>
     Suc (length (filter P (xs[i := y]))) = length (filter P xs)"
  using filter_update_len[of i xs P y] by simp

lemma filter_update_keep:
  "i < length xs \<Longrightarrow> P y = P (xs ! i) \<Longrightarrow> (filter P (xs[i := y]) = []) = (filter P xs = [])"
  using filter_update_same[of i xs P y] by (metis length_0_conv)

lemma filter_update_nonempty:
  "i < length xs \<Longrightarrow> P y \<Longrightarrow> filter P (xs[i := y]) \<noteq> []"
  by (metis filter_empty_conv length_list_update nth_list_update_eq nth_mem)

lemma filter_empty_nth: "filter P xs = [] \<Longrightarrow> i < length xs \<Longrightarrow> \<not> P (xs ! i)"
  by (metis filter_empty_conv nth_mem)

subsection \<open>The transitions, case by case\<close>

lemmas run_defs = init_def step_def driver_def Validate_def check_def struct_errors_def required_def
  required_str_def begin_op_def call_op_def step_op_def new_worker_def record'_def Lock_def
  Unlock_def zeroRecorder_def float64_of_def

lemma exec_invariant:
  assumes pres: "\<And>a s s'. I s \<Longrightarrow> step p a s = Some s' \<Longrightarrow> I s'"
  shows "I s0 \<Longrightarrow> exec p as s0 = Some s \<Longrightarrow> I s"
proof (induction as arbitrary: s0)
  case Nil
  then show ?case by simp
next
  case (Cons a as)
  then obtain s1 where 1: "step p a s0 = Some s1" and 2: "exec p as s1 = Some s"
    by (auto split: option.splits)
  from pres[OF Cons.prems(1) 1] have "I s1" .
  from Cons.IH[OF this 2] show ?case .
qed

lemma step_act: "step p a s = Some s' \<Longrightarrow> act p a s = Some s'"
  by (simp add: step_def split: if_splits)

lemma driverE:
  assumes "driver p s = Some s'"
  obtains
    (invalid) e where "dpc s = DStart" "validate p = Some e" "s' = s\<lparr>dpc := DFailed e\<rparr>"
  | (panic) "dpc s = DStart" "validate p = None" "reqCount p < 0" "s' = s\<lparr>panicked := True\<rparr>"
  | (start) "dpc s = DStart" "validate p = None" "0 \<le> reqCount p"
      "s' = s\<lparr>dpc := DLoop, stopTime := now s + runFor p\<rparr>"
  | (enter) "dpc s = DLoop" "now s < stopTime s \<or> runFor p = 0" "s' = s\<lparr>dpc := DSend\<rparr>"
  | (return) c where "dpc s = DLoop" "\<not> now s < stopTime s" "runFor p \<noteq> 0" "p = Library c"
      "s' = s\<lparr>dpc := DReturned (readRec s) (writeRec s)\<rparr>"
  | (leave) c where "dpc s = DLoop" "\<not> now s < stopTime s" "runFor p \<noteq> 0" "p = Standalone c"
      "s' = s\<lparr>dpc := DWait\<rparr>"
  | (send) "dpc s = DSend" "int (sem s) < reqCount p" "s' = s\<lparr>dpc := DGo, sem := sem s + 1\<rparr>"
  | (go) "dpc s = DGo" "s' = s\<lparr>dpc := DLoop, wg := wg s + 1, procs := procs s @ [new_worker]\<rparr>"
  | (wait) "dpc s = DWait" "wg s = 0" "s' = s\<lparr>dpc := DReturned (readRec s) (writeRec s)\<rparr>"
proof (cases "dpc s")
  case DStart
  show ?thesis
  proof (cases "validate p")
    case (Some e)
    show ?thesis by (rule invalid[of e]) (use assms DStart Some in \<open>simp_all add: driver_def\<close>)
  next
    case None
    show ?thesis
    proof (cases "reqCount p < 0")
      case True
      show ?thesis by (rule panic) (use assms DStart None True in \<open>simp_all add: driver_def\<close>)
    next
      case False
      show ?thesis by (rule start) (use assms DStart None False in \<open>simp_all add: driver_def\<close>)
    qed
  qed
next
  case DLoop
  show ?thesis
  proof (cases "now s < stopTime s \<or> runFor p = 0")
    case True
    show ?thesis by (rule enter) (use assms DLoop True in \<open>auto simp: driver_def\<close>)
  next
    case False
    show ?thesis
    proof (cases p)
      case (Library c)
      show ?thesis
        by (rule return[of c]) (use assms DLoop False Library in \<open>auto simp: driver_def\<close>)
    next
      case (Standalone c)
      show ?thesis
        by (rule leave[of c]) (use assms DLoop False Standalone in \<open>auto simp: driver_def\<close>)
    qed
  qed
next
  case DSend
  show ?thesis
    by (rule send) (use assms DSend in \<open>simp_all add: driver_def split: if_splits\<close>)
next
  case DGo
  show ?thesis by (rule go) (use assms DGo in \<open>simp_all add: driver_def\<close>)
next
  case DWait
  show ?thesis
    by (rule wait) (use assms DWait in \<open>simp_all add: driver_def split: if_splits\<close>)
next
  case (DReturned r w)
  then show ?thesis using assms by (simp add: driver_def)
next
  case (DFailed e)
  then show ?thesis using assms by (simp add: driver_def)
qed

lemma begin_opE:
  assumes "begin_op i n k s = Some s'"
  obtains "i < length (procs s)" "w_pc (procs s ! i) = Spawned" "0 \<le> n" "n < 100" "0 \<le> k" "k < 10"
    "s' = s\<lparr>procs := (procs s)[i :=
             \<lparr>w_pc = (if k < 5 then AtLock else AtRead), w_id = n, w_opStart = now s,
              w_ok = True, w_rec = Some (if k < 5 then WriteOp else ReadOp)\<rparr>]\<rparr>"
  using assms by (auto simp: begin_op_def split: if_splits)

lemma call_opE:
  assumes "call_op i f s = Some s'"
  obtains
    (find) "i < length (procs s)" "w_pc (procs s ! i) = AtRead"
      "s' = s\<lparr>calls := calls s @ [(i, Find (w_id (procs s ! i)))],
              procs := (procs s)[i := (procs s ! i)\<lparr>w_pc := AtRecord, w_ok := \<not> f\<rparr>]\<rparr>"
  | (insert) "i < length (procs s)" "w_pc (procs s ! i) = AtInsert"
      "s' = s\<lparr>calls := calls s @ [(i, Insert (w_id (procs s ! i)))],
              procs := (procs s)[i := (procs s ! i)\<lparr>w_pc := AtRecord, w_ok := \<not> f\<rparr>]\<rparr>"
  | (update) "i < length (procs s)" "w_pc (procs s ! i) = AtUpdate"
      "s' = s\<lparr>calls := calls s @ [(i, Update (w_id (procs s ! i)))],
              procs := (procs s)[i := (procs s ! i)\<lparr>w_pc := AtRecord, w_ok := \<not> f\<rparr>]\<rparr>"
  | (update_locked) "i < length (procs s)" "w_pc (procs s ! i) = AtUpdateLocked"
      "s' = s\<lparr>calls := calls s @ [(i, Update (w_id (procs s ! i)))],
              procs := (procs s)[i := (procs s ! i)\<lparr>w_pc := AtUnlockL, w_ok := \<not> f\<rparr>]\<rparr>"
proof -
  have len: "i < length (procs s)"
    using assms by (simp add: call_op_def split: if_splits)
  show ?thesis
  proof (cases "w_pc (procs s ! i)")
    case AtRead
    show ?thesis
      by (rule find) (use assms len AtRead in \<open>simp_all add: call_op_def Let_def\<close>)
  next
    case AtInsert
    show ?thesis
      by (rule insert) (use assms len AtInsert in \<open>simp_all add: call_op_def Let_def\<close>)
  next
    case AtUpdate
    show ?thesis
      by (rule update) (use assms len AtUpdate in \<open>simp_all add: call_op_def Let_def\<close>)
  next
    case AtUpdateLocked
    show ?thesis
      by (rule update_locked)
        (use assms len AtUpdateLocked in \<open>simp_all add: call_op_def Let_def\<close>)
  qed (use assms len in \<open>simp_all add: call_op_def Let_def\<close>)
qed

lemma step_opE:
  assumes "step_op p i s = Some s'"
  obtains
    (lock) "i < length (procs s)" "w_pc (procs s ! i) = AtLock" "mapLock s = None"
      "s' = s\<lparr>mapLock := Some i, procs := (procs s)[i := (procs s ! i)\<lparr>w_pc := AtCheck\<rparr>]\<rparr>"
  | (seen) "i < length (procs s)" "w_pc (procs s ! i) = AtCheck" "inserted s (w_id (procs s ! i))"
      "s' = s\<lparr>decisions := decisions s @ [(w_id (procs s ! i), DecideUpdate)],
              procs := (procs s)[i := (procs s ! i)\<lparr>w_pc :=
                (case p of Library _ \<Rightarrow> AtUnlockU | Standalone _ \<Rightarrow> AtUpdateLocked)\<rparr>]\<rparr>"
  | (fresh) "i < length (procs s)" "w_pc (procs s ! i) = AtCheck"
      "\<not> inserted s (w_id (procs s ! i))"
      "s' = s\<lparr>decisions := decisions s @ [(w_id (procs s ! i), DecideInsert)],
              procs := (procs s)[i := (procs s ! i)\<lparr>w_pc := AtMark\<rparr>]\<rparr>"
  | (mark) "i < length (procs s)" "w_pc (procs s ! i) = AtMark"
      "s' = s\<lparr>inserted := (inserted s)(w_id (procs s ! i) := True),
              procs := (procs s)[i := (procs s ! i)\<lparr>w_pc := AtUnlockI\<rparr>]\<rparr>"
  | (unlockI) "i < length (procs s)" "w_pc (procs s ! i) = AtUnlockI"
      "s' = s\<lparr>mapLock := None, procs := (procs s)[i := (procs s ! i)\<lparr>w_pc := AtInsert\<rparr>]\<rparr>"
  | (unlockU) "i < length (procs s)" "w_pc (procs s ! i) = AtUnlockU"
      "s' = s\<lparr>mapLock := None, procs := (procs s)[i := (procs s ! i)\<lparr>w_pc := AtUpdate\<rparr>]\<rparr>"
  | (unlockL) "i < length (procs s)" "w_pc (procs s ! i) = AtUnlockL"
      "s' = s\<lparr>mapLock := None, procs := (procs s)[i := (procs s ! i)\<lparr>w_pc := AtRecord\<rparr>]\<rparr>"
  | (nil_rec) "i < length (procs s)" "w_pc (procs s ! i) = AtRecord" "w_rec (procs s ! i) = None"
      "s' = s\<lparr>panicked := True\<rparr>"
  | (rec_read) r where "i < length (procs s)" "w_pc (procs s ! i) = AtRecord"
      "w_rec (procs s ! i) = Some ReadOp"
      "record' (w_ok (procs s ! i)) (now s - w_opStart (procs s ! i)) (readRec s) = Some r"
      "s' = s\<lparr>readRec := r, allStats := allStats s + 1,
              procs := (procs s)[i := (procs s ! i)\<lparr>w_pc := AtRelease\<rparr>]\<rparr>"
  | (rec_write) r where "i < length (procs s)" "w_pc (procs s ! i) = AtRecord"
      "w_rec (procs s ! i) = Some WriteOp"
      "record' (w_ok (procs s ! i)) (now s - w_opStart (procs s ! i)) (writeRec s) = Some r"
      "s' = s\<lparr>writeRec := r, allStats := allStats s + 1,
              procs := (procs s)[i := (procs s ! i)\<lparr>w_pc := AtRelease\<rparr>]\<rparr>"
  | (release) "i < length (procs s)" "w_pc (procs s ! i) = AtRelease" "sem s \<noteq> 0"
      "s' = s\<lparr>sem := sem s - 1, procs := (procs s)[i := (procs s ! i)\<lparr>w_pc := AtDone\<rparr>]\<rparr>"
  | (neg_wg) "i < length (procs s)" "w_pc (procs s ! i) = AtDone" "wg s \<le> 0"
      "s' = s\<lparr>panicked := True\<rparr>"
  | (finish) "i < length (procs s)" "w_pc (procs s ! i) = AtDone" "0 < wg s"
      "s' = s\<lparr>wg := wg s - 1, procs := (procs s)[i := (procs s ! i)\<lparr>w_pc := Exited\<rparr>]\<rparr>"
proof -
  have len: "i < length (procs s)"
    using assms by (simp add: step_op_def split: if_splits)
  note defs = step_op_def Let_def
  show ?thesis
  proof (cases "w_pc (procs s ! i)")
    case AtLock
    show ?thesis
      by (rule lock) (use assms len AtLock in \<open>simp_all add: defs split: if_splits\<close>)
  next
    case AtCheck
    show ?thesis
    proof (cases "inserted s (w_id (procs s ! i))")
      case True
      show ?thesis by (rule seen) (use assms len AtCheck True in \<open>simp_all add: defs\<close>)
    next
      case False
      show ?thesis by (rule fresh) (use assms len AtCheck False in \<open>simp_all add: defs\<close>)
    qed
  next
    case AtMark
    show ?thesis by (rule mark) (use assms len AtMark in \<open>simp_all add: defs\<close>)
  next
    case AtUnlockI
    show ?thesis by (rule unlockI) (use assms len AtUnlockI in \<open>simp_all add: defs\<close>)
  next
    case AtUnlockU
    show ?thesis by (rule unlockU) (use assms len AtUnlockU in \<open>simp_all add: defs\<close>)
  next
    case AtUnlockL
    show ?thesis by (rule unlockL) (use assms len AtUnlockL in \<open>simp_all add: defs\<close>)
  next
    case AtRecord
    show ?thesis
    proof (cases "w_rec (procs s ! i)")
      case None
      show ?thesis by (rule nil_rec) (use assms len AtRecord None in \<open>simp_all add: defs\<close>)
    next
      case (Some k)
      show ?thesis
      proof (cases k)
        case ReadOp
        then obtain r where r:
          "record' (w_ok (procs s ! i)) (now s - w_opStart (procs s ! i)) (readRec s) = Some r"
          using assms len AtRecord Some by (auto simp: defs split: option.splits)
        show ?thesis
          by (rule rec_read[of r])
            (use assms len AtRecord Some ReadOp r in \<open>simp_all add: defs\<close>)
      next
        case WriteOp
        then obtain r where r:
          "record' (w_ok (procs s ! i)) (now s - w_opStart (procs s ! i)) (writeRec s) = Some r"
          using assms len AtRecord Some by (auto simp: defs split: option.splits)
        show ?thesis
          by (rule rec_write[of r])
            (use assms len AtRecord Some WriteOp r in \<open>simp_all add: defs\<close>)
      qed
    qed
  next
    case AtRelease
    show ?thesis
      by (rule release) (use assms len AtRelease in \<open>simp_all add: defs split: if_splits\<close>)
  next
    case AtDone
    show ?thesis
    proof (cases "wg s \<le> 0")
      case True
      show ?thesis by (rule neg_wg) (use assms len AtDone True in \<open>simp_all add: defs\<close>)
    next
      case False
      show ?thesis by (rule finish) (use assms len AtDone False in \<open>simp_all add: defs\<close>)
    qed
  qed (use assms len in \<open>simp_all add: defs\<close>)
qed

subsection \<open>Every transition keeps the invariants\<close>

lemma sem_inv_init: "sem_inv p (init t0)"
  by (simp add: sem_inv_def init_def running_def)

lemma sem_inv_step:
  assumes I: "sem_inv p s" and st: "step p a s = Some s'"
  shows "sem_inv p s'"
proof -
  note defs = sem_inv_def running_def in_flight_def
  have act: "act p a s = Some s'" using st by (rule step_act)
  show ?thesis
  proof (cases a)
    case (Tick d)
    then show ?thesis using act I by (auto simp: defs)
  next
    case Drv
    then have "driver p s = Some s'" using act by simp
    then show ?thesis using I
      by (cases rule: driverE) (auto simp: defs new_worker_def)
  next
    case (Begin i n k)
    then have "begin_op i n k s = Some s'" using act by simp
    then show ?thesis using I
      by (cases rule: begin_opE) (auto simp: defs filter_update_same)
  next
    case (Call i f)
    then have "call_op i f s = Some s'" using act by simp
    then show ?thesis using I
      by (cases rule: call_opE) (auto simp: defs filter_update_same)
  next
    case (Step i)
    then have "step_op p i s = Some s'" using act by simp
    then show ?thesis using I
    proof (cases rule: step_opE)
      case release
      have "Suc (length (filter in_flight ((procs s)[i := (procs s ! i)\<lparr>w_pc := AtDone\<rparr>]))) =
          length (filter in_flight (procs s))"
        by (rule filter_update_dec) (use release in \<open>simp_all add: in_flight_def\<close>)
      then show ?thesis using I release by (auto simp: sem_inv_def running_def)
    qed (auto simp: defs filter_update_same split: program.splits)
  qed
qed

lemma mutex_inv_init: "mutex_inv (init t0)"
  by (simp add: mutex_inv_def init_def)

lemma mutex_same:
  "mutex_inv s \<Longrightarrow> procs s' = procs s \<Longrightarrow> mapLock s' = mapLock s \<Longrightarrow> mutex_inv s'"
  by (simp add: mutex_inv_def)

lemma mutex_append:
  "mutex_inv s \<Longrightarrow> procs s' = procs s @ [w] \<Longrightarrow> \<not> in_cs (w_pc w) \<Longrightarrow>
     mapLock s' = mapLock s \<Longrightarrow> mutex_inv s'"
  by (auto simp: mutex_inv_def nth_append less_Suc_eq)

lemma mutex_upd_same:
  "mutex_inv s \<Longrightarrow> i < length (procs s) \<Longrightarrow> in_cs (w_pc w) = in_cs (w_pc (procs s ! i)) \<Longrightarrow>
     procs s' = (procs s)[i := w] \<Longrightarrow> mapLock s' = mapLock s \<Longrightarrow> mutex_inv s'"
  by (auto simp: mutex_inv_def nth_list_update)

lemma mutex_upd_lock:
  "mutex_inv s \<Longrightarrow> i < length (procs s) \<Longrightarrow> mapLock s = None \<Longrightarrow> in_cs (w_pc w) \<Longrightarrow>
     procs s' = (procs s)[i := w] \<Longrightarrow> mapLock s' = Some i \<Longrightarrow> mutex_inv s'"
  by (auto simp: mutex_inv_def nth_list_update)

lemma mutex_upd_unlock:
  "mutex_inv s \<Longrightarrow> i < length (procs s) \<Longrightarrow> in_cs (w_pc (procs s ! i)) \<Longrightarrow> \<not> in_cs (w_pc w) \<Longrightarrow>
     procs s' = (procs s)[i := w] \<Longrightarrow> mapLock s' = None \<Longrightarrow> mutex_inv s'"
  by (auto simp: mutex_inv_def nth_list_update)

lemma mutex_inv_step:
  assumes I: "mutex_inv s" and st: "step p a s = Some s'"
  shows "mutex_inv s'"
proof -
  have act: "act p a s = Some s'" using st by (rule step_act)
  show ?thesis
  proof (cases a)
    case (Tick d)
    then show ?thesis using act I by (auto simp: mutex_inv_def)
  next
    case Drv
    then have "driver p s = Some s'" using act by simp
    then show ?thesis
    proof (cases rule: driverE)
      case go
      show ?thesis
        by (rule mutex_append[OF I, of _ new_worker]) (use go in \<open>simp_all add: new_worker_def in_cs_def\<close>)
    qed (rule mutex_same[OF I]; simp)+
  next
    case (Begin i n k)
    then have "begin_op i n k s = Some s'" using act by simp
    then show ?thesis
      by (cases rule: begin_opE) (rule mutex_upd_same[OF I, of i]; simp add: in_cs_def)
  next
    case (Call i f)
    then have "call_op i f s = Some s'" using act by simp
    then show ?thesis
      by (cases rule: call_opE) (rule mutex_upd_same[OF I, of i]; simp add: in_cs_def)+
  next
    case (Step i)
    then have "step_op p i s = Some s'" using act by simp
    then show ?thesis
    proof (cases rule: step_opE)
      case lock
      show ?thesis
        by (rule mutex_upd_lock[OF I, of i]) (use lock in \<open>simp_all add: in_cs_def\<close>)
    next
      case unlockI
      show ?thesis
        by (rule mutex_upd_unlock[OF I, of i]) (use unlockI in \<open>simp_all add: in_cs_def\<close>)
    next
      case unlockU
      show ?thesis
        by (rule mutex_upd_unlock[OF I, of i]) (use unlockU in \<open>simp_all add: in_cs_def\<close>)
    next
      case unlockL
      show ?thesis
        by (rule mutex_upd_unlock[OF I, of i]) (use unlockL in \<open>simp_all add: in_cs_def\<close>)
    next
      case nil_rec
      show ?thesis by (rule mutex_same[OF I]) (use nil_rec in simp_all)
    next
      case neg_wg
      show ?thesis by (rule mutex_same[OF I]) (use neg_wg in simp_all)
    qed (rule mutex_upd_same[OF I, of i]; simp add: in_cs_def split: program.splits)+
  qed
qed

lemma wg_inv_init: "wg_inv (init t0)"
  by (simp add: wg_inv_def init_def)

lemma wg_inv_step:
  assumes I: "wg_inv s" and st: "step p a s = Some s'"
  shows "wg_inv s'"
proof -
  note defs = wg_inv_def filter_update_same
  have act: "act p a s = Some s'" using st by (rule step_act)
  show ?thesis
  proof (cases a)
    case (Tick d)
    then show ?thesis using act I by (auto simp: wg_inv_def)
  next
    case Drv
    then have "driver p s = Some s'" using act by simp
    then show ?thesis using I
      by (cases rule: driverE) (auto simp: defs new_worker_def)
  next
    case (Begin i n k)
    then have "begin_op i n k s = Some s'" using act by simp
    then show ?thesis using I
      by (cases rule: begin_opE) (auto simp: defs)
  next
    case (Call i f)
    then have "call_op i f s = Some s'" using act by simp
    then show ?thesis using I
      by (cases rule: call_opE) (auto simp: defs)
  next
    case (Step i)
    then have "step_op p i s = Some s'" using act by simp
    then show ?thesis using I
    proof (cases rule: step_opE)
      case finish
      have "Suc (length (filter (\<lambda>w. w_pc w \<noteq> Exited)
              ((procs s)[i := (procs s ! i)\<lparr>w_pc := Exited\<rparr>]))) =
          length (filter (\<lambda>w. w_pc w \<noteq> Exited) (procs s))"
        by (rule filter_update_dec) (use finish in simp_all)
      then show ?thesis using I finish by (auto simp: wg_inv_def)
    qed (auto simp: defs split: program.splits)
  qed
qed

lemma account_inv_init: "account_inv n (init t0)"
  by (simp add: account_inv_def init_def inserts_of_def updates_of_def decided_def decisions_of_def)

lemma account_inv_step:
  assumes I: "account_inv n s" and st: "step p a s = Some s'"
  shows "account_inv n s'"
proof -
  note defs = account_inv_def inserts_of_def updates_of_def decided_def decisions_of_def
    ins_pend_def upd_pend_def
  have act: "act p a s = Some s'" using st by (rule step_act)
  show ?thesis
  proof (cases a)
    case (Tick d)
    then show ?thesis using act I by (auto simp: defs)
  next
    case Drv
    then have "driver p s = Some s'" using act by simp
    then show ?thesis using I
      by (cases rule: driverE) (auto simp: defs new_worker_def)
  next
    case (Begin i m k)
    then have "begin_op i m k s = Some s'" using act by simp
    then show ?thesis using I
      by (cases rule: begin_opE) (auto simp: defs filter_update_same)
  next
    case (Call i f)
    then have "call_op i f s = Some s'" using act by simp
    then show ?thesis
    proof (cases rule: call_opE)
      case find
      then show ?thesis using I by (auto simp: defs filter_update_same)
    next
      case insert
      let ?w = "(procs s ! i)\<lparr>w_pc := AtRecord, w_ok := \<not> f\<rparr>"
      from insert filter_update_len[of i "procs s" "ins_pend n" ?w]
        filter_update_len[of i "procs s" "upd_pend n" ?w]
      show ?thesis using I by (auto simp: defs split: if_splits)
    next
      case update
      let ?w = "(procs s ! i)\<lparr>w_pc := AtRecord, w_ok := \<not> f\<rparr>"
      from update filter_update_len[of i "procs s" "ins_pend n" ?w]
        filter_update_len[of i "procs s" "upd_pend n" ?w]
      show ?thesis using I by (auto simp: defs split: if_splits)
    next
      case update_locked
      let ?w = "(procs s ! i)\<lparr>w_pc := AtUnlockL, w_ok := \<not> f\<rparr>"
      from update_locked filter_update_len[of i "procs s" "ins_pend n" ?w]
        filter_update_len[of i "procs s" "upd_pend n" ?w]
      show ?thesis using I by (auto simp: defs split: if_splits)
    qed
  next
    case (Step i)
    then have "step_op p i s = Some s'" using act by simp
    then show ?thesis
    proof (cases rule: step_opE)
      case seen
      let ?w = "(procs s ! i)\<lparr>w_pc :=
                (case p of Library _ \<Rightarrow> AtUnlockU | Standalone _ \<Rightarrow> AtUpdateLocked)\<rparr>"
      from seen filter_update_len[of i "procs s" "ins_pend n" ?w]
        filter_update_len[of i "procs s" "upd_pend n" ?w]
      show ?thesis using I by (auto simp: defs split: if_splits program.splits)
    next
      case fresh
      let ?w = "(procs s ! i)\<lparr>w_pc := AtMark\<rparr>"
      from fresh filter_update_len[of i "procs s" "ins_pend n" ?w]
        filter_update_len[of i "procs s" "upd_pend n" ?w]
      show ?thesis using I by (auto simp: defs split: if_splits)
    qed (use I in \<open>auto simp: defs filter_update_same\<close>)
  qed
qed

lemma marked_inv_init: "marked_inv n (init t0)"
  by (simp add: marked_inv_def init_def inserts_of_def updates_of_def)

lemma marked_inv_step:
  assumes I: "marked_inv n s" and st: "step p a s = Some s'"
  shows "marked_inv n s'"
proof -
  note defs = marked_inv_def inserts_of_def updates_of_def marked_pend_def
  have act: "act p a s = Some s'" using st by (rule step_act)
  show ?thesis
  proof (cases a)
    case (Tick d)
    then show ?thesis using act I by (auto simp: defs)
  next
    case Drv
    then have "driver p s = Some s'" using act by simp
    then show ?thesis using I
      by (cases rule: driverE) (auto simp: defs new_worker_def)
  next
    case (Begin i m k)
    then have "begin_op i m k s = Some s'" using act by simp
    then show ?thesis using I
      by (cases rule: begin_opE) (auto simp: defs filter_update_keep)
  next
    case (Call i f)
    then have "call_op i f s = Some s'" using act by simp
    then show ?thesis
    proof (cases rule: call_opE)
      case find
      then show ?thesis using I by (auto simp: defs filter_update_keep)
    next
      case insert
      let ?w = "(procs s ! i)\<lparr>w_pc := AtRecord, w_ok := \<not> f\<rparr>"
      from insert filter_update_len[of i "procs s" "marked_pend n" ?w]
      show ?thesis using I by (auto simp: defs split: if_splits)
    next
      case update
      let ?w = "(procs s ! i)\<lparr>w_pc := AtRecord, w_ok := \<not> f\<rparr>"
      from update filter_update_len[of i "procs s" "marked_pend n" ?w]
      show ?thesis using I by (auto simp: defs split: if_splits)
    next
      case update_locked
      let ?w = "(procs s ! i)\<lparr>w_pc := AtUnlockL, w_ok := \<not> f\<rparr>"
      from update_locked filter_update_len[of i "procs s" "marked_pend n" ?w]
      show ?thesis using I by (auto simp: defs split: if_splits)
    qed
  next
    case (Step i)
    then have "step_op p i s = Some s'" using act by simp
    then show ?thesis
    proof (cases rule: step_opE)
      case seen
      let ?w = "(procs s ! i)\<lparr>w_pc :=
                (case p of Library _ \<Rightarrow> AtUnlockU | Standalone _ \<Rightarrow> AtUpdateLocked)\<rparr>"
      from seen filter_update_len[of i "procs s" "marked_pend n" ?w]
      show ?thesis using I by (auto simp: defs split: if_splits program.splits)
    next
      case mark
      let ?w = "(procs s ! i)\<lparr>w_pc := AtUnlockI\<rparr>"
      from mark filter_update_len[of i "procs s" "marked_pend n" ?w]
      show ?thesis using I by (auto simp: defs split: if_splits)
    next
      case unlockL
      let ?w = "(procs s ! i)\<lparr>w_pc := AtRecord\<rparr>"
      from unlockL filter_update_len[of i "procs s" "marked_pend n" ?w]
      show ?thesis using I by (auto simp: defs split: if_splits)
    qed (use I in \<open>auto simp: defs filter_update_keep\<close>)
  qed
qed

lemma lock_holder_alone:
  assumes M: "mutex_inv s" and i: "i < length (procs s)" and cs: "in_cs (w_pc (procs s ! i))"
    and ne: "w_pc (procs s ! i) \<noteq> AtMark"
  shows "filter (mark_pend n) (procs s) = []"
proof -
  have "\<not> mark_pend n w" if "w \<in> set (procs s)" for w
  proof
    assume mp: "mark_pend n w"
    from that obtain j where j: "j < length (procs s)" "procs s ! j = w"
      by (auto simp: in_set_conv_nth)
    have "in_cs (w_pc (procs s ! j))" using mp j by (simp add: mark_pend_def in_cs_def)
    then have "mapLock s = Some j" using M j(1) by (auto simp: mutex_inv_def)
    moreover have "mapLock s = Some i" using M i cs by (auto simp: mutex_inv_def)
    ultimately have "j = i" by simp
    then show False using mp j ne by (simp add: mark_pend_def)
  qed
  then show ?thesis by (simp add: filter_empty_conv)
qed

lemma shape_inv_init: "shape_inv n (init t0)"
  by (simp add: shape_inv_def init_def decisions_of_def)

lemma shape_inv_yes:
  "inserted s n \<or> filter (mark_pend n) (procs s) \<noteq> [] \<Longrightarrow>
     decisions_of n s = DecideInsert # replicate k DecideUpdate \<Longrightarrow> shape_inv n s"
  unfolding shape_inv_def by (simp only: if_True) (rule exI[of _ k], rule refl)

lemma shape_inv_step:
  assumes I: "shape_inv n s" and M: "mutex_inv s" and st: "step p a s = Some s'"
  shows "shape_inv n s'"
proof -
  note defs = shape_inv_def decisions_of_def mark_pend_def
  have act: "act p a s = Some s'" using st by (rule step_act)
  show ?thesis
  proof (cases a)
    case (Tick d)
    then show ?thesis using act I by (auto simp: defs)
  next
    case Drv
    then have "driver p s = Some s'" using act by simp
    then show ?thesis using I
      by (cases rule: driverE) (auto simp: defs new_worker_def)
  next
    case (Begin i m k)
    then have "begin_op i m k s = Some s'" using act by simp
    then show ?thesis using I
      by (cases rule: begin_opE) (auto simp: defs filter_update_keep)
  next
    case (Call i f)
    then have "call_op i f s = Some s'" using act by simp
    then show ?thesis using I
      by (cases rule: call_opE) (auto simp: defs filter_update_keep)
  next
    case (Step i)
    then have "step_op p i s = Some s'" using act by simp
    then show ?thesis
    proof (cases rule: step_opE)
      case seen
      let ?w = "(procs s ! i)\<lparr>w_pc :=
                (case p of Library _ \<Rightarrow> AtUnlockU | Standalone _ \<Rightarrow> AtUpdateLocked)\<rparr>"
      have keep: "(filter (mark_pend n) ((procs s)[i := ?w]) = []) = (filter (mark_pend n) (procs s) = [])"
        by (rule filter_update_keep) (use seen in \<open>auto simp: mark_pend_def split: program.splits\<close>)
      show ?thesis
      proof (cases "w_id (procs s ! i) = n")
        case True
        then obtain k where "decisions_of n s = DecideInsert # replicate k DecideUpdate"
          using I seen by (auto simp: shape_inv_def)
        then have "decisions_of n s' = DecideInsert # replicate (Suc k) DecideUpdate"
          using seen True by (simp add: decisions_of_def replicate_append_same)
        moreover have "inserted s' n" using seen True by simp
        ultimately show ?thesis by (intro shape_inv_yes[of s' n "Suc k"] disjI1)
      next
        case False
        then have "decisions_of n s' = decisions_of n s" "inserted s' n = inserted s n"
          using seen by (simp_all add: decisions_of_def)
        then show ?thesis using I seen keep by (simp add: shape_inv_def)
      qed
    next
      case fresh
      let ?w = "(procs s ! i)\<lparr>w_pc := AtMark\<rparr>"
      have none: "filter (mark_pend n) (procs s) = []"
        by (rule lock_holder_alone[OF M, of i]) (use fresh in \<open>simp_all add: in_cs_def\<close>)
      show ?thesis
      proof (cases "w_id (procs s ! i) = n")
        case True
        then have "decisions_of n s = []" using I fresh none by (simp add: shape_inv_def)
        then have "decisions_of n s' = DecideInsert # replicate 0 DecideUpdate"
          using fresh True by (simp add: decisions_of_def)
        moreover have "filter (mark_pend n) (procs s') \<noteq> []"
          using fresh True by (simp add: filter_update_nonempty mark_pend_def)
        ultimately show ?thesis by (intro shape_inv_yes[of s' n 0] disjI2)
      next
        case False
        have "(filter (mark_pend n) ((procs s)[i := ?w]) = []) = (filter (mark_pend n) (procs s) = [])"
          by (rule filter_update_keep) (use fresh False in \<open>auto simp: mark_pend_def\<close>)
        moreover have "decisions_of n s' = decisions_of n s" "inserted s' n = inserted s n"
          using fresh False by (simp_all add: decisions_of_def)
        ultimately show ?thesis using I fresh by (simp add: shape_inv_def)
      qed
    next
      case mark
      let ?w = "(procs s ! i)\<lparr>w_pc := AtUnlockI\<rparr>"
      have dec: "decisions_of n s' = decisions_of n s"
        using mark by (simp add: decisions_of_def)
      show ?thesis
      proof (cases "w_id (procs s ! i) = n")
        case True
        have "mark_pend n (procs s ! i)" using mark True by (simp add: mark_pend_def)
        then have "filter (mark_pend n) (procs s) \<noteq> []"
          using mark(1) by (metis filter_empty_conv nth_mem)
        then obtain k where "decisions_of n s = DecideInsert # replicate k DecideUpdate"
          using I by (auto simp: shape_inv_def)
        moreover have "inserted s' n" using mark True by simp
        ultimately show ?thesis using dec by (intro shape_inv_yes[of s' n k] disjI1) simp_all
      next
        case False
        have "(filter (mark_pend n) ((procs s)[i := ?w]) = []) = (filter (mark_pend n) (procs s) = [])"
          by (rule filter_update_keep) (use mark False in \<open>auto simp: mark_pend_def\<close>)
        moreover have "inserted s' n = inserted s n" using mark False by simp
        ultimately show ?thesis using I mark dec by (simp add: shape_inv_def)
      qed
    qed (use I in \<open>auto simp: defs filter_update_keep\<close>)
  qed
qed

lemma lib_inv_step:
  assumes I: "lib_inv s" and st: "step (Library c) a s = Some s'"
  shows "lib_inv s'"
proof -
  note defs = lib_inv_def locked_update_def
  have act: "act (Library c) a s = Some s'" using st by (rule step_act)
  show ?thesis
  proof (cases a)
    case (Tick d)
    then show ?thesis using act I by (auto simp: defs)
  next
    case Drv
    then have "driver (Library c) s = Some s'" using act by simp
    then show ?thesis using I
      by (cases rule: driverE) (auto simp: defs new_worker_def)
  next
    case (Begin i m k)
    then have "begin_op i m k s = Some s'" using act by simp
    then show ?thesis using I
      by (cases rule: begin_opE) (auto simp: defs filter_update_keep)
  next
    case (Call i f)
    then have "call_op i f s = Some s'" using act by simp
    then show ?thesis
    proof (cases rule: call_opE)
      case update_locked
      then have False using filter_empty_nth[of locked_update "procs s" i] I
        by (simp add: defs)
      then show ?thesis ..
    qed (use I in \<open>auto simp: defs filter_update_keep\<close>)
  next
    case (Step i)
    then have "step_op (Library c) i s = Some s'" using act by simp
    then show ?thesis
    proof (cases rule: step_opE)
      case unlockL
      then have False using filter_empty_nth[of locked_update "procs s" i] I
        by (simp add: defs)
      then show ?thesis ..
    qed (use I in \<open>auto simp: defs filter_update_keep\<close>)
  qed
qed

lemma drain_inv_step:
  assumes I: "drain_inv s" and W: "wg_inv s" and st: "step (Standalone c) a s = Some s'"
  shows "drain_inv s'"
proof -
  note defs = drain_inv_def returned_def
  have act: "act (Standalone c) a s = Some s'" using st by (rule step_act)
  have exited: "w_pc (procs s ! i) = Exited" if "returned s" "i < length (procs s)" for i
    using filter_empty_nth[of "\<lambda>w. w_pc w \<noteq> Exited" "procs s" i] I that
    by (simp add: drain_inv_def)
  show ?thesis
  proof (cases a)
    case (Tick d)
    then show ?thesis using act I by (auto simp: defs)
  next
    case Drv
    then have "driver (Standalone c) s = Some s'" using act by simp
    then show ?thesis using W
      by (cases rule: driverE) (auto simp: defs wg_inv_def)
  next
    case (Begin i m k)
    then have "begin_op i m k s = Some s'" using act by simp
    then show ?thesis
    proof (cases rule: begin_opE)
      case 1
      then have "\<not> returned s" using exited[of i] by auto
      then show ?thesis using 1 by (simp add: defs)
    qed
  next
    case (Call i f)
    then have "call_op i f s = Some s'" using act by simp
    then show ?thesis
      by (cases rule: call_opE) (use exited[of i] in \<open>auto simp: defs\<close>)
  next
    case (Step i)
    then have "step_op (Standalone c) i s = Some s'" using act by simp
    then show ?thesis
      by (cases rule: step_opE) (use exited[of i] in \<open>auto simp: defs\<close>)
  qed
qed

lemma neg_inv_step:
  assumes I: "neg_inv s" and c: "RunFor c < 0" "0 < ReqCount c"
    and st: "step (Library c) a s = Some s'"
  shows "neg_inv s'"
proof -
  have act: "act (Library c) a s = Some s'" using st by (rule step_act)
  have v: "validate (Library c) = None"
    using c by (simp add: Validate_def struct_errors_def required_def)
  show ?thesis
  proof (cases a)
    case (Tick d)
    then show ?thesis using act I by (auto simp: neg_inv_def)
  next
    case Drv
    then have "driver (Library c) s = Some s'" using act by simp
    then show ?thesis using I v c
      by (cases rule: driverE) (auto simp: neg_inv_def)
  next
    case (Begin i m k)
    then have "begin_op i m k s = Some s'" using act by simp
    then show ?thesis using I
      by (cases rule: begin_opE) (auto simp: neg_inv_def)
  next
    case (Call i f)
    then have "call_op i f s = Some s'" using act by simp
    then show ?thesis using I
      by (cases rule: call_opE) (auto simp: neg_inv_def)
  next
    case (Step i)
    then have "step_op (Library c) i s = Some s'" using act by simp
    then show ?thesis using I
      by (cases rule: step_opE) (auto simp: neg_inv_def)
  qed
qed

subsection \<open>The invariants hold in every state a run reaches\<close>

lemma reach_sem: "exec p as (init t0) = Some s \<Longrightarrow> sem_inv p s"
  by (rule exec_invariant[where I = "sem_inv p", OF sem_inv_step sem_inv_init])

lemma reach_mutex: "exec p as (init t0) = Some s \<Longrightarrow> mutex_inv s"
  by (rule exec_invariant[where I = mutex_inv, OF mutex_inv_step mutex_inv_init])

lemma reach_wg: "exec p as (init t0) = Some s \<Longrightarrow> wg_inv s"
  by (rule exec_invariant[where I = wg_inv, OF wg_inv_step wg_inv_init])

lemma reach_account: "exec p as (init t0) = Some s \<Longrightarrow> account_inv n s"
  by (rule exec_invariant[where I = "account_inv n", OF account_inv_step account_inv_init])

lemma reach_marked: "exec p as (init t0) = Some s \<Longrightarrow> marked_inv n s"
  by (rule exec_invariant[where I = "marked_inv n", OF marked_inv_step marked_inv_init])

lemma reach_shape:
  assumes "exec p as (init t0) = Some s"
  shows "shape_inv n s"
proof -
  have "mutex_inv s \<and> shape_inv n s"
  proof (rule exec_invariant[where I = "\<lambda>s. mutex_inv s \<and> shape_inv n s" and p = p])
    show "mutex_inv (init t0) \<and> shape_inv n (init t0)"
      by (simp add: mutex_inv_init shape_inv_init)
    show "exec p as (init t0) = Some s" by fact
  qed (auto intro: mutex_inv_step shape_inv_step)
  then show ?thesis ..
qed

lemma reach_lib: "exec (Library c) as (init t0) = Some s \<Longrightarrow> lib_inv s"
  by (rule exec_invariant[where I = lib_inv, OF lib_inv_step])
    (simp_all add: lib_inv_def init_def)

lemma reach_drain:
  assumes "exec (Standalone c) as (init t0) = Some s"
  shows "drain_inv s"
proof -
  have "wg_inv s \<and> drain_inv s"
  proof (rule exec_invariant[where I = "\<lambda>s. wg_inv s \<and> drain_inv s" and p = "Standalone c"])
    show "wg_inv (init t0) \<and> drain_inv (init t0)"
      using wg_inv_init[of t0] by (simp add: drain_inv_def returned_def init_def)
    show "exec (Standalone c) as (init t0) = Some s" by fact
  qed (auto intro: wg_inv_step drain_inv_step)
  then show ?thesis ..
qed

lemma reach_neg:
  assumes "RunFor c < 0" "0 < ReqCount c" "exec (Library c) as (init t0) = Some s"
  shows "neg_inv s"
proof (rule exec_invariant[where I = neg_inv and p = "Library c"])
  show "neg_inv (init t0)" by (simp add: neg_inv_def init_def)
  show "exec (Library c) as (init t0) = Some s" by fact
qed (rule neg_inv_step[OF _ assms(1,2)])

subsection \<open>The recorder and the reports\<close>





subsection \<open>The statistics of a list of numbers\<close>

lemmas pkg_defs = stats_Min_def stats_Max_def stats_Median_def stats_Percentile_def stats_Mean_def
  stats_Sum_def sortedCopy_def Duration_def amd64_def

lemma Aggregate_lines:
  "Aggregate impl r =
     [(''min'', Duration impl (fst (stats_Min (durations r)))),
      (''max'', Duration impl (fst (stats_Max (durations r)))),
      (''median'', Duration impl (fst (stats_Median (durations r)))),
      (''25th percentile'', Duration impl (fst (stats_Percentile (durations r) 25))),
      (''50th percentile'', Duration impl (fst (stats_Percentile (durations r) 50))),
      (''75th percentile'', Duration impl (fst (stats_Percentile (durations r) 75))),
      (''95th percentile'', Duration impl (fst (stats_Percentile (durations r) 95))),
      (''99th percentile'', Duration impl (fst (stats_Percentile (durations r) 99)))]"
  by (simp add: Aggregate_def split_beta)

lemma aggregate_lines:
  "aggregate impl r =
     [(''min'', Duration impl (fst (stats_Min (durations r)))),
      (''median'', Duration impl (fst (stats_Median (durations r)))),
      (''75th percentile'', Duration impl (fst (stats_Percentile (durations r) 75))),
      (''95th percentile'', Duration impl (fst (stats_Percentile (durations r) 95))),
      (''99th percentile'', Duration impl (fst (stats_Percentile (durations r) 99)))]"
  by (simp add: aggregate_def split_beta)









lemma mean_between:
  fixes a b lo hi :: real
  assumes "lo \<le> a" "a \<le> hi" "lo \<le> b" "b \<le> hi"
  shows "lo \<le> (a + b) / 2 \<and> (a + b) / 2 \<le> hi"
  using assms by simp









subsection \<open>The two programs compared\<close>

text \<open>
  The standalone program reports only after every goroutine it started has exited and
  freed its slot, and no recorder changes after that.
\<close>

lemma standalone_drains:
  assumes "exec (Standalone c) as (init t0) = Some s" and "returned s"
  shows "(\<forall>w \<in> set (procs s). w_pc w = Exited) \<and> running s = 0 \<and> sem s = 0 \<and>
     dpc s = DReturned (readRec s) (writeRec s)"
proof -
  have d: "filter (\<lambda>w. w_pc w \<noteq> Exited) (procs s) = []"
    "dpc s = DReturned (readRec s) (writeRec s)"
    using reach_drain[OF assms(1)] assms(2) by (simp_all add: drain_inv_def)
  have all: "\<forall>w \<in> set (procs s). w_pc w = Exited"
    using d(1) by (simp add: filter_empty_conv)
  then have r: "running s = 0" by (simp add: running_def in_flight_def filter_empty_conv)
  have "sem s = 0" using reach_sem[OF assms(1)] r d(2) by (simp add: sem_inv_def)
  then show ?thesis using all r d(2) by simp
qed

text \<open>
  The closure \<^verbatim>\<open>writeFunc\<close> and \<^verbatim>\<open>readFunc\<close> of the library's caller never call the
  backend with the mutex of the map held.
\<close>

lemma library_calls_unlocked:
  assumes "exec (Library c) as (init t0) = Some s" and "i < length (procs s)"
    and "at_call (w_pc (procs s ! i))"
  shows "mapLock s \<noteq> Some i"
proof -
  have "\<not> locked_update (procs s ! i)"
    using reach_lib[OF assms(1)] assms(2) by (auto simp: lib_inv_def dest: filter_empty_nth)
  then have "\<not> in_cs (w_pc (procs s ! i))"
    using assms(3) by (auto simp: at_call_def in_cs_def locked_update_def)
  then show ?thesis using reach_mutex[OF assms(1)] assms(2) by (simp add: mutex_inv_def)
qed

section \<open>The properties\<close>

text \<open>
  C1 (drain before return). The property asks that the run returns its two recorders only
  after every dispatched operation has completed and released its slot, so that no
  recorder is mutated after the return. The standalone program does so
  (\<open>standalone_drains\<close>). \<^verbatim>\<open>Stats.Start\<close> registers every goroutine with
  \<^verbatim>\<open>wg.Add(1)\<close> and \<^verbatim>\<open>wg.Done()\<close> but never calls \<^verbatim>\<open>wg.Wait()\<close>. With
  \<^verbatim>\<open>RunFor\<close> five seconds and \<^verbatim>\<open>ReqCount\<close> one: the driver starts goroutine 0 and
  blocks in its send; the read of goroutine 0 takes five seconds; when it has recorded and
  given back its slot the driver sends, starts goroutine 1, finds the loop condition false
  and returns. At the return \<^verbatim>\<open>read\<close> has one try, goroutine 1 has not begun, holds
  the slot and is counted by the wait group. Goroutine 1 then reads key 3 and records the
  outcome: \<^verbatim>\<open>read\<close> has two tries, the recorder that was returned has one.
\<close>

theorem start_returns_before_drain:
  "map_option (\<lambda>s. (dpc s, map w_pc (procs s), sem s, wg s))
     (exec (Library \<lparr>RunFor = 5000000000, ReqCount = 1\<rparr>)
        [Drv, Drv, Drv, Drv, Drv, Begin 0 7 7, Tick 5000000000, Call 0 False, Step 0, Step 0,
         Drv, Drv, Drv] (init 0)) =
   Some (DReturned \<lparr>mu = False, Tries = 1, Ok = 1, durations = [Fin 5000000000]\<rparr> zeroRecorder,
     [AtDone, Spawned], 1, 2) \<and>
   map_option (\<lambda>s. (dpc s, map w_pc (procs s), sem s, wg s, Tries (readRec s)))
     (exec (Library \<lparr>RunFor = 5000000000, ReqCount = 1\<rparr>)
        [Drv, Drv, Drv, Drv, Drv, Begin 0 7 7, Tick 5000000000, Call 0 False, Step 0, Step 0,
         Drv, Drv, Drv, Begin 1 3 7, Call 1 False, Step 1] (init 0)) =
   Some (DReturned \<lparr>mu = False, Tries = 1, Ok = 1, durations = [Fin 5000000000]\<rparr> zeroRecorder,
     [AtDone, AtRelease], 1, 2, 2)"
  by (simp add: run_defs)

text \<open>
  C2 (a run without deadline). The flag \<^verbatim>\<open>run_for\<close> is documented as
  "0 to run forever until SIGTERM" and the loop condition has the disjunct
  \<^verbatim>\<open>RunFor == 0\<close>, but validation comes first and its \<^verbatim>\<open>required\<close> rule rejects the
  zero duration: with \<^verbatim>\<open>RunFor\<close> zero and \<^verbatim>\<open>ReqCount\<close> 100 both programs fail with a
  validation error on \<^verbatim>\<open>RunFor\<close>, and \<^verbatim>\<open>Start\<close> returns it without entering the loop.
\<close>

theorem zero_duration_rejected:
  "Validate \<lparr>RunFor = 0, ReqCount = 100\<rparr> = Some (ValidationErrors [''RunFor'']) \<and>
   check \<lparr>RunFor' = 0, Table = ''scratch'', DB = ''db'', Conn = ''conn'', User = ''user'',
      Pass = ''pass'', Socket = ''/cloudsql'', ReqCount' = 100\<rparr> =
     Some (ValidationErrors [''RunFor'']) \<and>
   exec (Library \<lparr>RunFor = 0, ReqCount = 100\<rparr>) [Drv] (init 0) =
     Some ((init 0)\<lparr>dpc := DFailed (ValidationErrors [''RunFor''])\<rparr>) \<and>
   step (Library \<lparr>RunFor = 0, ReqCount = 100\<rparr>) Drv
     ((init 0)\<lparr>dpc := DFailed (ValidationErrors [''RunFor''])\<rparr>) = None"
  by (simp add: run_defs)

text \<open>
  C3 (key coordination), as amended. In every state a run of either program reaches, under
  any interleaving, and for every key \<open>n\<close>: the decisions taken for \<open>n\<close> under the
  mutex are none, or one decision to insert, the first, followed by decisions to update
  only. Every decision is carried out by exactly one backend call: the calls of
  \<^verbatim>\<open>insert\<close> issued for \<open>n\<close> and the workers that have decided to insert and not yet
  called add up to one as soon as \<open>n\<close> was written at all, and the calls of \<^verbatim>\<open>update\<close>
  issued and still to come add up to the other decisions. So once no write of \<open>n\<close> is
  still to be issued, the calls attributed to \<open>n\<close> are exactly one \<^verbatim>\<open>insert\<close> and
  one \<^verbatim>\<open>update\<close> for every later write: never two inserts, and never an update of a
  key whose insert is neither issued nor about to be. A worker that stands before
  \<^verbatim>\<open>insert\<close> can always issue it, and the call is counted for its key. A key is
  marked before a write of it is issued, and at most one worker is between \<^verbatim>\<open>Lock\<close> and
  \<^verbatim>\<open>Unlock\<close>, where the test and the mark both lie. Only the order in which the calls
  themselves are issued is not fixed.
\<close>

theorem key_coordination:
  assumes "exec p as (init t0) = Some s"
  shows "(decisions_of n s = [] \<or> (\<exists>k. decisions_of n s = DecideInsert # replicate k DecideUpdate)) \<and>
     inserting n s + inserts_of n s = (if decisions_of n s = [] then 0 else 1) \<and>
     updating n s + updates_of n s = length (decisions_of n s) - 1 \<and>
     (inserting n s = 0 \<and> updating n s = 0 \<and> decisions_of n s \<noteq> [] \<longrightarrow>
        inserts_of n s = 1 \<and> Suc (updates_of n s) = length (decisions_of n s)) \<and>
     (0 < inserts_of n s \<or> 0 < updates_of n s \<longrightarrow> inserted s n) \<and>
     (\<forall>i j. i < length (procs s) \<and> j < length (procs s) \<and>
        in_cs (w_pc (procs s ! i)) \<and> in_cs (w_pc (procs s ! j)) \<longrightarrow> i = j) \<and>
     (\<forall>i failed. i < length (procs s) \<and> w_pc (procs s ! i) = AtInsert \<and>
        w_id (procs s ! i) = n \<and> \<not> panicked s \<longrightarrow>
        (\<exists>s'. step p (Call i failed) s = Some s' \<and> inserts_of n s' = Suc (inserts_of n s) \<and>
           Suc (inserting n s') = inserting n s))"
proof -
  have A: "inserting n s + inserts_of n s = decided DecideInsert n s"
    "updating n s + updates_of n s = decided DecideUpdate n s"
    using reach_account[OF assms, of n]
    by (simp_all add: account_inv_def inserting_def updating_def)
  have S: "decisions_of n s = [] \<or> (\<exists>k. decisions_of n s = DecideInsert # replicate k DecideUpdate)"
    using reach_shape[OF assms, of n] by (auto simp: shape_inv_def split: if_splits)
  have D: "decided DecideInsert n s = (if decisions_of n s = [] then 0 else 1)"
    "decided DecideUpdate n s = length (decisions_of n s) - 1"
    using S by (auto simp: decided_def)
  have a: "inserting n s + inserts_of n s = (if decisions_of n s = [] then 0 else 1)"
    using A(1) D(1) by simp
  have b: "updating n s + updates_of n s = length (decisions_of n s) - 1"
    using A(2) D(2) by simp
  have c: "inserting n s = 0 \<and> updating n s = 0 \<and> decisions_of n s \<noteq> [] \<longrightarrow>
        inserts_of n s = 1 \<and> Suc (updates_of n s) = length (decisions_of n s)"
    using a b by (cases "decisions_of n s") auto
  have d: "0 < inserts_of n s \<or> 0 < updates_of n s \<longrightarrow> inserted s n"
    using reach_marked[OF assms, of n] by (simp add: marked_inv_def)
  have e: "\<forall>i j. i < length (procs s) \<and> j < length (procs s) \<and>
        in_cs (w_pc (procs s ! i)) \<and> in_cs (w_pc (procs s ! j)) \<longrightarrow> i = j"
    using reach_mutex[OF assms] by (auto simp: mutex_inv_def)
  have f: "\<exists>s'. step p (Call i failed) s = Some s' \<and> inserts_of n s' = Suc (inserts_of n s) \<and>
           Suc (inserting n s') = inserting n s"
    if "i < length (procs s)" "w_pc (procs s ! i) = AtInsert" "w_id (procs s ! i) = n"
      "\<not> panicked s" for i failed
  proof -
    let ?w = "(procs s ! i)\<lparr>w_pc := AtRecord, w_ok := \<not> failed\<rparr>"
    let ?s = "s\<lparr>calls := calls s @ [(i, Insert n)], procs := (procs s)[i := ?w]\<rparr>"
    have 1: "step p (Call i failed) s = Some ?s"
      using that by (simp add: step_def call_op_def)
    have 2: "inserts_of n ?s = Suc (inserts_of n s)" by (simp add: inserts_of_def)
    have "Suc (length (filter (ins_pend n) ((procs s)[i := ?w]))) =
        length (filter (ins_pend n) (procs s))"
      by (rule filter_update_dec) (use that in \<open>simp_all add: ins_pend_def\<close>)
    then have 3: "Suc (inserting n ?s) = inserting n s" by (simp add: inserting_def)
    show ?thesis using 1 2 3 by blast
  qed
  show ?thesis using S a b c d e f by blast
qed

theorem key_coordination_witness:
  "exec (Library \<lparr>RunFor = 5000000000, ReqCount = 2\<rparr>)
     [Drv, Drv, Drv, Drv, Drv, Drv, Drv, Begin 0 7 0, Begin 1 7 1, Step 0, Step 0, Step 0,
      Step 0, Step 1, Step 1, Step 1, Call 1 False, Call 0 False] (init 0) \<noteq> None \<and>
   inserts_of 7 (the (exec (Library \<lparr>RunFor = 5000000000, ReqCount = 2\<rparr>)
     [Drv, Drv, Drv, Drv, Drv, Drv, Drv, Begin 0 7 0, Begin 1 7 1, Step 0, Step 0, Step 0,
      Step 0, Step 1, Step 1, Step 1, Call 1 False, Call 0 False] (init 0))) = 1 \<and>
   updates_of 7 (the (exec (Library \<lparr>RunFor = 5000000000, ReqCount = 2\<rparr>)
     [Drv, Drv, Drv, Drv, Drv, Drv, Drv, Begin 0 7 0, Begin 1 7 1, Step 0, Step 0, Step 0,
      Step 0, Step 1, Step 1, Step 1, Call 1 False, Call 0 False] (init 0))) = 1 \<and>
   inserted (the (exec (Library \<lparr>RunFor = 5000000000, ReqCount = 2\<rparr>)
     [Drv, Drv, Drv, Drv, Drv, Drv, Drv, Begin 0 7 0, Begin 1 7 1, Step 0, Step 0, Step 0,
      Step 0, Step 1, Step 1, Step 1, Call 1 False, Call 0 False] (init 0))) 7"
proof -
  let ?p = "Library \<lparr>RunFor = 5000000000, ReqCount = 2\<rparr>"
  let ?as = "[Drv, Drv, Drv, Drv, Drv, Drv, Drv, Begin 0 7 0, Begin 1 7 1, Step 0, Step 0, Step 0,
      Step 0, Step 1, Step 1, Step 1, Call 1 False, Call 0 False]"
  obtain s where e: "exec ?p ?as (init 0) = Some s"
    and w: "map w_pc (procs s) = [AtRecord, AtRecord]"
    and d: "decisions s = [(7, DecideInsert), (7, DecideUpdate)]"
    by (simp add: run_defs)
  have "\<forall>x \<in> set (map w_pc (procs s)). x = AtRecord" unfolding w by simp
  then have pcs: "\<forall>w \<in> set (procs s). w_pc w = AtRecord" by simp
  have i: "inserting 7 s = 0" "updating 7 s = 0"
    using pcs by (simp_all add: inserting_def updating_def ins_pend_def upd_pend_def)
  have l: "decisions_of 7 s = [DecideInsert, DecideUpdate]"
    using d by (simp add: decisions_of_def)
  from key_coordination[OF e, of 7] i l
  have "inserts_of 7 s = 1 \<and> updates_of 7 s = 1 \<and> inserted s 7" by simp
  then show ?thesis using e by simp
qed

text \<open>
  C3 as stated fails: the \<^verbatim>\<open>insert\<close> is issued after the mutex is released, so a second
  writer of the same key can decide to update and issue its \<^verbatim>\<open>update\<close> before the first
  writer issues its \<^verbatim>\<open>insert\<close>. Two goroutines of the library both write key 7; worker 0
  locks, finds the key unmarked, marks it and unlocks; worker 1 locks, finds it marked,
  unlocks and calls \<^verbatim>\<open>update\<close>; only then worker 0 calls \<^verbatim>\<open>insert\<close>.
\<close>

theorem update_before_insert:
  "map_option calls
     (exec (Library \<lparr>RunFor = 5000000000, ReqCount = 2\<rparr>)
        [Drv, Drv, Drv, Drv, Drv, Drv, Drv, Begin 0 7 0, Begin 1 7 1, Step 0, Step 0, Step 0,
         Step 0, Step 1, Step 1, Step 1, Call 1 False, Call 0 False] (init 0)) =
   Some [(1, Update 7), (0, Insert 7)]"
  by (simp add: run_defs)

text \<open>
  C4 (no backend call under the mutex). The closure \<^verbatim>\<open>writeFunc\<close> of the library's caller
  keeps to it (\<open>library_calls_unlocked\<close>), and so does the insert branch of the
  standalone program; its update branch calls \<^verbatim>\<open>update\<close> first and unlocks after. Worker
  0 inserts key 7; worker 1 locks, finds the key marked and stands before \<^verbatim>\<open>update\<close> as
  the holder of the mutex; after the call it still holds it.
\<close>

theorem standalone_update_under_lock:
  "map_option (\<lambda>s. (mapLock s, map w_pc (procs s), calls s))
     (exec (Standalone \<lparr>RunFor' = 5000000000, Table = ''scratch'', DB = ''db'', Conn = ''conn'',
          User = ''user'', Pass = ''pass'', Socket = ''/cloudsql'', ReqCount' = 2\<rparr>)
        [Drv, Drv, Drv, Drv, Drv, Drv, Drv, Begin 0 7 0, Step 0, Step 0, Step 0, Step 0,
         Call 0 False, Begin 1 7 1, Step 1, Step 1] (init 0)) =
   Some (Some 1, [AtRecord, AtUpdateLocked], [(0, Insert 7)]) \<and>
   map_option (\<lambda>s. (mapLock s, map w_pc (procs s), calls s))
     (exec (Standalone \<lparr>RunFor' = 5000000000, Table = ''scratch'', DB = ''db'', Conn = ''conn'',
          User = ''user'', Pass = ''pass'', Socket = ''/cloudsql'', ReqCount' = 2\<rparr>)
        [Drv, Drv, Drv, Drv, Drv, Drv, Drv, Begin 0 7 0, Step 0, Step 0, Step 0, Step 0,
         Call 0 False, Begin 1 7 1, Step 1, Step 1, Call 1 False] (init 0)) =
   Some (Some 1, [AtRecord, AtUnlockL], [(0, Insert 7), (1, Update 7)])"
  by (simp add: run_defs)

text \<open>
  C5 (a non-positive concurrency limit is rejected). The \<^verbatim>\<open>required\<close> rule rejects
  \<^verbatim>\<open>ReqCount\<close> zero only. With \<^verbatim>\<open>ReqCount\<close> minus one validation accepts the
  configuration, in both programs, and the run panics in
  \<^verbatim>\<open>make(chan struct{}, ReqCount)\<close> instead of returning an error.
\<close>

theorem negative_concurrency_accepted:
  "Validate \<lparr>RunFor = 5000000000, ReqCount = - 1\<rparr> = None \<and>
   check \<lparr>RunFor' = 5000000000, Table = ''scratch'', DB = ''db'', Conn = ''conn'',
      User = ''user'', Pass = ''pass'', Socket = ''/cloudsql'', ReqCount' = - 1\<rparr> = None \<and>
   exec (Library \<lparr>RunFor = 5000000000, ReqCount = - 1\<rparr>) [Drv] (init 0) =
     Some ((init 0)\<lparr>panicked := True\<rparr>)"
  by (simp add: run_defs)

text \<open>
  C6 (the report of an empty recorder), as amended. When no duration was recorded the
  report is computed all the same, without a failure and without a word that there is no
  data: every statistics function answers the empty sequence with not-a-number and the
  empty-input error, the error is discarded, and every line shows the duration that
  \<^verbatim>\<open>time.Duration\<close> makes of not-a-number, which depends on the implementation.
\<close>

theorem empty_aggregate_discards_errors:
  assumes "durations r = []"
  shows "stats_Min (durations r) = (NaN, Some EmptyInputErr) \<and>
     stats_Max (durations r) = (NaN, Some EmptyInputErr) \<and>
     stats_Median (durations r) = (NaN, Some EmptyInputErr) \<and>
     stats_Percentile (durations r) percent = (NaN, Some EmptyInputErr) \<and>
     Aggregate impl r =
       [(''min'', impl NaN), (''max'', impl NaN), (''median'', impl NaN),
        (''25th percentile'', impl NaN), (''50th percentile'', impl NaN),
        (''75th percentile'', impl NaN), (''95th percentile'', impl NaN),
        (''99th percentile'', impl NaN)] \<and>
     aggregate impl r =
       [(''min'', impl NaN), (''median'', impl NaN), (''75th percentile'', impl NaN),
        (''95th percentile'', impl NaN), (''99th percentile'', impl NaN)]"
  using assms
  by (simp add: Aggregate_lines aggregate_lines stats_Min_def stats_Max_def stats_Median_def
      stats_Percentile_def sortedCopy_def Duration_def)

theorem empty_aggregate_discards_errors_witness:
  "durations zeroRecorder = [] \<and>
   stats_Min (durations zeroRecorder) = (NaN, Some EmptyInputErr) \<and>
   Aggregate amd64 zeroRecorder =
     [(''min'', amd64 NaN), (''max'', amd64 NaN), (''median'', amd64 NaN),
      (''25th percentile'', amd64 NaN), (''50th percentile'', amd64 NaN),
      (''75th percentile'', amd64 NaN), (''95th percentile'', amd64 NaN),
      (''99th percentile'', amd64 NaN)]"
proof -
  have d: "durations zeroRecorder = []" by (simp add: zeroRecorder_def)
  from empty_aggregate_discards_errors[OF d, of 25 amd64] d show ?thesis by blast
qed

text \<open>
  C6 as stated fails: the report of the empty recorder is not a failure and does not say
  that there is no data. On amd64 every line holds the smallest \<^verbatim>\<open>int64\<close>, a duration
  that is printed as \<^verbatim>\<open>-2562047h47m16.854775808s\<close>, although the package returned the
  empty-input error with every value.
\<close>

theorem empty_aggregate_reports_garbage:
  "Aggregate amd64 zeroRecorder =
     [(''min'', - 9223372036854775808), (''max'', - 9223372036854775808),
      (''median'', - 9223372036854775808), (''25th percentile'', - 9223372036854775808),
      (''50th percentile'', - 9223372036854775808), (''75th percentile'', - 9223372036854775808),
      (''95th percentile'', - 9223372036854775808), (''99th percentile'', - 9223372036854775808)] \<and>
   stats_Min (durations zeroRecorder) = (NaN, Some EmptyInputErr) \<and>
   stats_Percentile (durations zeroRecorder) 99 = (NaN, Some EmptyInputErr)"
  by (simp add: Aggregate_lines pkg_defs zeroRecorder_def)





text \<open>
  C9 (the budget). In every state a run with a positive \<^verbatim>\<open>ReqCount\<close> reaches, under any
  interleaving, at most \<^verbatim>\<open>ReqCount\<close> operations are in flight: the channel holds one
  element for each of them (and one for the operation the driver is about to start), the
  slot being taken by the driver before the \<^verbatim>\<open>go\<close> statement and given back by the
  operation's deferred receive; the channel never holds more than \<^verbatim>\<open>ReqCount\<close>, and
  with \<^verbatim>\<open>ReqCount\<close> elements in it the driver's send has no transition.
\<close>

theorem budget_property:
  assumes "0 < reqCount p" and "exec p as (init t0) = Some s"
  shows "int (running s) \<le> reqCount p \<and>
     sem s = running s + (if dpc s = DGo then 1 else 0) \<and>
     int (sem s) \<le> reqCount p \<and>
     (dpc s = DSend \<and> int (sem s) = reqCount p \<longrightarrow> step p Drv s = None)"
proof -
  have I: "sem s = running s + (if dpc s = DGo then 1 else 0)" "int (sem s) \<le> max 0 (reqCount p)"
    using reach_sem[OF assms(2)] by (simp_all add: sem_inv_def)
  have a: "int (sem s) \<le> reqCount p" using I(2) assms(1) by simp
  have b: "int (running s) \<le> reqCount p" using a I(1) by (simp split: if_splits)
  have c: "dpc s = DSend \<and> int (sem s) = reqCount p \<longrightarrow> step p Drv s = None"
    by (simp add: step_def driver_def)
  show ?thesis using a b c I(1) by blast
qed

theorem budget_property_witness:
  "0 < reqCount (Library \<lparr>RunFor = 5000000000, ReqCount = 1\<rparr>) \<and>
   exec (Library \<lparr>RunFor = 5000000000, ReqCount = 1\<rparr>) [Drv, Drv, Drv, Drv, Drv] (init 0) \<noteq> None \<and>
   running (the (exec (Library \<lparr>RunFor = 5000000000, ReqCount = 1\<rparr>)
     [Drv, Drv, Drv, Drv, Drv] (init 0))) = 1 \<and>
   step (Library \<lparr>RunFor = 5000000000, ReqCount = 1\<rparr>) Drv
     (the (exec (Library \<lparr>RunFor = 5000000000, ReqCount = 1\<rparr>)
       [Drv, Drv, Drv, Drv, Drv] (init 0))) = None"
proof -
  let ?p = "Library \<lparr>RunFor = 5000000000, ReqCount = 1\<rparr>"
  have pos: "0 < reqCount ?p" by simp
  obtain s where e: "exec ?p [Drv, Drv, Drv, Drv, Drv] (init 0) = Some s"
    and d: "dpc s = DSend" "sem s = 1"
    by (simp add: run_defs)
  from budget_property[OF pos e] d have "running s = 1" "step ?p Drv s = None" by simp_all
  then show ?thesis using e pos by simp
qed

text \<open>
  C10 (a negative duration), as amended. For every configuration with a negative
  \<^verbatim>\<open>RunFor\<close> and a positive \<^verbatim>\<open>ReqCount\<close>, \<^verbatim>\<open>Validate\<close> accepts; \<^verbatim>\<open>Start\<close> returns on
  the first test of the loop condition, however the clock advances, with two recorders
  whose \<^verbatim>\<open>Tries\<close> and \<^verbatim>\<open>Ok\<close> are zero; and no run of it ever starts an operation, calls
  the backend or panics.
\<close>

theorem negative_duration_returns_at_once:
  assumes "RunFor c < 0" and "0 < ReqCount c"
  shows "Validate c = None \<and>
     (\<exists>s. exec (Library c) [Tick d1, Drv, Tick d2, Drv] (init t0) = Some s \<and>
        dpc s = DReturned zeroRecorder zeroRecorder \<and> procs s = []) \<and>
     Tries zeroRecorder = 0 \<and> Ok zeroRecorder = 0 \<and>
     (\<forall>as s. exec (Library c) as (init t0) = Some s \<longrightarrow>
        procs s = [] \<and> calls s = [] \<and> \<not> panicked s \<and>
        (returned s \<longrightarrow> dpc s = DReturned zeroRecorder zeroRecorder))"
proof -
  have v: "Validate c = None"
    using assms by (simp add: Validate_def struct_errors_def required_def)
  have r: "\<exists>s. exec (Library c) [Tick d1, Drv, Tick d2, Drv] (init t0) = Some s \<and>
        dpc s = DReturned zeroRecorder zeroRecorder \<and> procs s = []"
    using assms v by (simp add: init_def step_def driver_def)
  have z: "Tries zeroRecorder = 0 \<and> Ok zeroRecorder = 0" by (simp add: zeroRecorder_def)
  have a: "procs s = [] \<and> calls s = [] \<and> \<not> panicked s \<and>
        (returned s \<longrightarrow> dpc s = DReturned zeroRecorder zeroRecorder)"
    if "exec (Library c) as (init t0) = Some s" for as s
    using reach_neg[OF assms that] by (auto simp: neg_inv_def returned_def)
  show ?thesis using v r z a by blast
qed

theorem negative_duration_returns_at_once_witness:
  "RunFor \<lparr>RunFor = - 1, ReqCount = 100\<rparr> < 0 \<and> 0 < ReqCount \<lparr>RunFor = - 1, ReqCount = 100\<rparr> \<and>
   Validate \<lparr>RunFor = - 1, ReqCount = 100\<rparr> = None \<and>
   (\<exists>s. exec (Library \<lparr>RunFor = - 1, ReqCount = 100\<rparr>) [Tick 3, Drv, Tick 4, Drv] (init 0) = Some s \<and>
      dpc s = DReturned zeroRecorder zeroRecorder \<and> procs s = [])"
proof -
  have h: "RunFor \<lparr>RunFor = - 1, ReqCount = 100\<rparr> < 0" "0 < ReqCount \<lparr>RunFor = - 1, ReqCount = 100\<rparr>"
    by simp_all
  from negative_duration_returns_at_once[OF h, of 3 4 0] h show ?thesis by blast
qed

text \<open>
  C10 as stated fails: a negative \<^verbatim>\<open>RunFor\<close> does not make a configuration valid. With
  \<^verbatim>\<open>ReqCount\<close> zero the \<^verbatim>\<open>required\<close> rule on \<^verbatim>\<open>ReqCount\<close> rejects it, and \<^verbatim>\<open>Start\<close>
  returns that error and no recorders.
\<close>

theorem negative_duration_zero_concurrency:
  "Validate \<lparr>RunFor = - 1, ReqCount = 0\<rparr> = Some (ValidationErrors [''ReqCount'']) \<and>
   exec (Library \<lparr>RunFor = - 1, ReqCount = 0\<rparr>) [Drv] (init 0) =
     Some ((init 0)\<lparr>dpc := DFailed (ValidationErrors [''ReqCount''])\<rparr>)"
  by (simp add: run_defs)

end
